theory Spec2Isabelle
  imports Main
begin

section \<open>The rules engine of \<^verbatim>\<open>chess_pygame_ai.py\<close>\<close>

text \<open>
  The engine part of the program is embedded function by function: \<^verbatim>\<open>new_board\<close>,
  \<^verbatim>\<open>in_bounds\<close>, \<^verbatim>\<open>is_white\<close>, \<^verbatim>\<open>is_black\<close>, \<^verbatim>\<open>side_of\<close>, \<^verbatim>\<open>generate_moves\<close> with the
  six piece generators and \<^verbatim>\<open>slide_moves\<close>, \<^verbatim>\<open>apply_move\<close>, \<^verbatim>\<open>has_moves\<close> and
  \<^verbatim>\<open>ai_choose_move\<close>. The pygame part (drawing, the event loop) is not modelled.

  A board is a Python list of lists of one-character strings: here a list of lists of
  \<open>char\<close>. A move is the tuple \<^verbatim>\<open>(r1, c1, r2, c2)\<close> of Python integers. A side is the
  one-character string \<^verbatim>\<open>'w'\<close> or \<^verbatim>\<open>'b'\<close>; the source compares it with \<^verbatim>\<open>==\<close> only, so any
  character is accepted and the comparisons are kept as written.

  A Python call either returns, raises, or (for the \<^verbatim>\<open>while\<close> loop of \<^verbatim>\<open>slide_moves\<close>)
  may run forever. Raising is the \<open>Inl\<close> branch of a sum; not returning is \<open>None\<close>.
\<close>

subsection \<open>Errors, lists and cells\<close>

text \<open>
  \<open>TypeError\<close> stands for every use of an object of the wrong kind (a subscript on
  something that is not a list); only the model with an explicit store raises it.
\<close>

datatype error = IndexError | KeyError | TypeError

type_synonym board = "char list list"

type_synonym move = "int \<times> int \<times> int \<times> int"

definition ROWS :: int where
  "ROWS = 8"

definition COLS :: int where
  "COLS = 8"

text \<open>\<^verbatim>\<open>xs[i]\<close>: an index below zero counts from the end, an index outside the list raises.\<close>

definition norm_index :: "'a list \<Rightarrow> int \<Rightarrow> error + nat" where
  "norm_index xs i =
     (if 0 \<le> i \<and> i < int (length xs) then Inr (nat i)
      else if i < 0 \<and> 0 \<le> int (length xs) + i then Inr (nat (int (length xs) + i))
      else Inl IndexError)"

definition getitem :: "'a list \<Rightarrow> int \<Rightarrow> error + 'a" where
  "getitem xs i = (case norm_index xs i of Inl e \<Rightarrow> Inl e | Inr k \<Rightarrow> Inr (xs ! k))"

text \<open>\<^verbatim>\<open>xs[i] = v\<close>, returning the list after the store.\<close>

definition setitem :: "'a list \<Rightarrow> int \<Rightarrow> 'a \<Rightarrow> error + 'a list" where
  "setitem xs i v = (case norm_index xs i of Inl e \<Rightarrow> Inl e | Inr k \<Rightarrow> Inr (xs[k := v]))"

text \<open>\<^verbatim>\<open>board[r][c]\<close>.\<close>

definition cell_at :: "board \<Rightarrow> int \<Rightarrow> int \<Rightarrow> error + char" where
  "cell_at board r c = (case getitem board r of Inl e \<Rightarrow> Inl e | Inr row \<Rightarrow> getitem row c)"

text \<open>
  \<^verbatim>\<open>board[r][c] = v\<close> on a board whose rows are separate list objects (as those of
  \<^verbatim>\<open>new_b\<close> in \<^verbatim>\<open>apply_move\<close> are): the row is read, the store changes that row only.
\<close>

definition set_cell :: "board \<Rightarrow> int \<Rightarrow> int \<Rightarrow> char \<Rightarrow> error + board" where
  "set_cell board r c v =
     (case norm_index board r of
        Inl e \<Rightarrow> Inl e
      | Inr k \<Rightarrow> (case setitem (board ! k) c v of
                   Inl e \<Rightarrow> Inl e
                 | Inr row \<Rightarrow> Inr (board[k := row])))"

text \<open>\<^verbatim>\<open>range(n)\<close>.\<close>

definition py_range :: "int \<Rightarrow> int list" where
  "py_range n = [0..n - 1]"

text \<open>
  A \<^verbatim>\<open>for x in xs:\<close> loop whose body updates the local variables \<open>s\<close> and may raise.
\<close>

fun for_loop :: "'x list \<Rightarrow> ('x \<Rightarrow> 's \<Rightarrow> error + 's) \<Rightarrow> 's \<Rightarrow> error + 's" where
  "for_loop [] body s = Inr s"
| "for_loop (x # xs) body s =
     (case body x s of Inl e \<Rightarrow> Inl e | Inr s' \<Rightarrow> for_loop xs body s')"

text \<open>The same loop with a body that may also not return.\<close>

fun for_loop_opt :: "'x list \<Rightarrow> ('x \<Rightarrow> 's \<Rightarrow> (error + 's) option) \<Rightarrow> 's \<Rightarrow> (error + 's) option" where
  "for_loop_opt [] body s = Some (Inr s)"
| "for_loop_opt (x # xs) body s =
     (case body x s of
        None \<Rightarrow> None
      | Some (Inl e) \<Rightarrow> Some (Inl e)
      | Some (Inr s') \<Rightarrow> for_loop_opt xs body s')"

subsection \<open>Board model\<close>

definition new_board :: board where
  "new_board =
     [''rnbqkbnr'',
      ''pppppppp'',
      ''........'',
      ''........'',
      ''........'',
      ''........'',
      ''PPPPPPPP'',
      ''RNBQKBNR'']"

definition in_bounds :: "int \<Rightarrow> int \<Rightarrow> bool" where
  "in_bounds r c = (0 \<le> r \<and> r < ROWS \<and> 0 \<le> c \<and> c < COLS)"

text \<open>
  \<^verbatim>\<open>str.isupper\<close>, \<^verbatim>\<open>str.islower\<close> and \<^verbatim>\<open>str.lower\<close> on a one-character ASCII string: the
  upper-case letters are the codes 65 to 90, the lower-case letters 97 to 122.
\<close>

definition is_white :: "char \<Rightarrow> bool" where
  "is_white piece = (65 \<le> (of_char piece :: nat) \<and> (of_char piece :: nat) \<le> 90)"

definition is_black :: "char \<Rightarrow> bool" where
  "is_black piece = (97 \<le> (of_char piece :: nat) \<and> (of_char piece :: nat) \<le> 122)"

definition lower :: "char \<Rightarrow> char" where
  "lower piece = (if is_white piece then char_of ((of_char piece :: nat) + 32) else piece)"

text \<open>A cell is never the empty string, so only the test against \<^verbatim>\<open>'.'\<close> remains.\<close>

definition side_of :: "char \<Rightarrow> char option" where
  "side_of piece =
     (if piece = CHR ''.'' then None
      else Some (if is_white piece then CHR ''w'' else CHR ''b''))"

subsection \<open>Move generator\<close>

definition gen_pawn :: "board \<Rightarrow> int \<Rightarrow> int \<Rightarrow> char \<Rightarrow> error + move list" where
  "gen_pawn board r c side =
     (let dir = (if side = CHR ''w'' then - 1 else 1);
          start_row = (if side = CHR ''w'' then 6 else 1);
          r1 = r + dir;
          pushes =
            (if in_bounds r1 c then
               (case cell_at board r1 c of
                  Inl e \<Rightarrow> Inl e
                | Inr t1 \<Rightarrow>
                    if t1 = CHR ''.'' then
                      (let r2 = r + 2 * dir in
                       if r = start_row \<and> in_bounds r2 c then
                         (case cell_at board r2 c of
                            Inl e \<Rightarrow> Inl e
                          | Inr t2 \<Rightarrow>
                              if t2 = CHR ''.'' then
                                (case cell_at board r1 c of
                                   Inl e \<Rightarrow> Inl e
                                 | Inr t1' \<Rightarrow>
                                     if t1' = CHR ''.'' then Inr [(r, c, r1, c), (r, c, r2, c)]
                                     else Inr [(r, c, r1, c)])
                              else Inr [(r, c, r1, c)])
                       else Inr [(r, c, r1, c)])
                    else Inr [])
             else Inr [])
      in case pushes of
           Inl e \<Rightarrow> Inl e
         | Inr moves \<Rightarrow>
             for_loop [- 1, 1]
               (\<lambda>dc moves.
                  let cc = c + dc; rr = r + dir in
                  if in_bounds rr cc then
                    (case cell_at board rr cc of
                       Inl e \<Rightarrow> Inl e
                     | Inr target \<Rightarrow>
                         if target \<noteq> CHR ''.'' \<and> side_of target \<noteq> None \<and> side_of target \<noteq> Some side
                         then Inr (moves @ [(r, c, rr, cc)])
                         else Inr moves)
                  else Inr moves)
               moves)"

definition gen_knight :: "board \<Rightarrow> int \<Rightarrow> int \<Rightarrow> char \<Rightarrow> error + move list" where
  "gen_knight board r c side =
     (let jumps = [(2, 1), (2, - 1), (- 2, 1), (- 2, - 1), (1, 2), (1, - 2), (- 1, 2), (- 1, - 2)]
      in for_loop jumps
           (\<lambda>(dr, dc) moves.
              let rr = r + dr; cc = c + dc in
              if \<not> in_bounds rr cc then Inr moves
              else (case cell_at board rr cc of
                      Inl e \<Rightarrow> Inl e
                    | Inr target \<Rightarrow>
                        if target = CHR ''.'' \<or> side_of target \<noteq> Some side
                        then Inr (moves @ [(r, c, rr, cc)])
                        else Inr moves))
           [])"

text \<open>
  The \<^verbatim>\<open>while in_bounds(rr, cc)\<close> loop of \<^verbatim>\<open>slide_moves\<close> for one direction. With the
  direction \<^verbatim>\<open>(0, 0)\<close> on an empty cell it never ends, so it is a partial function.
\<close>

partial_function (option) slide_ray ::
  "board \<Rightarrow> int \<Rightarrow> int \<Rightarrow> char \<Rightarrow> int \<Rightarrow> int \<Rightarrow> int \<Rightarrow> int \<Rightarrow> move list \<Rightarrow> (error + move list) option"
where
  "slide_ray board r c side dr dc rr cc moves =
     (if in_bounds rr cc then
        (case cell_at board rr cc of
           Inl e \<Rightarrow> Some (Inl e)
         | Inr target \<Rightarrow>
             if target = CHR ''.'' then
               slide_ray board r c side dr dc (rr + dr) (cc + dc) (moves @ [(r, c, rr, cc)])
             else if side_of target \<noteq> Some side then Some (Inr (moves @ [(r, c, rr, cc)]))
             else Some (Inr moves))
      else Some (Inr moves))"

declare slide_ray.simps [code]

definition slide_moves ::
  "board \<Rightarrow> int \<Rightarrow> int \<Rightarrow> char \<Rightarrow> (int \<times> int) list \<Rightarrow> (error + move list) option" where
  "slide_moves board r c side directions =
     for_loop_opt directions
       (\<lambda>(dr, dc) moves. slide_ray board r c side dr dc (r + dr) (c + dc) moves)
       []"

definition gen_bishop :: "board \<Rightarrow> int \<Rightarrow> int \<Rightarrow> char \<Rightarrow> (error + move list) option" where
  "gen_bishop board r c side =
     (let dirs = [(1, 1), (1, - 1), (- 1, 1), (- 1, - 1)]
      in slide_moves board r c side dirs)"

definition gen_rook :: "board \<Rightarrow> int \<Rightarrow> int \<Rightarrow> char \<Rightarrow> (error + move list) option" where
  "gen_rook board r c side =
     (let dirs = [(1, 0), (- 1, 0), (0, 1), (0, - 1)]
      in slide_moves board r c side dirs)"

definition gen_queen :: "board \<Rightarrow> int \<Rightarrow> int \<Rightarrow> char \<Rightarrow> (error + move list) option" where
  "gen_queen board r c side =
     (let dirs = [(1, 1), (1, - 1), (- 1, 1), (- 1, - 1), (1, 0), (- 1, 0), (0, 1), (0, - 1)]
      in slide_moves board r c side dirs)"

definition gen_king :: "board \<Rightarrow> int \<Rightarrow> int \<Rightarrow> char \<Rightarrow> error + move list" where
  "gen_king board r c side =
     for_loop [- 1, 0, 1]
       (\<lambda>dr moves.
          for_loop [- 1, 0, 1]
            (\<lambda>dc moves.
               if dr = 0 \<and> dc = 0 then Inr moves
               else
                 (let rr = r + dr; cc = c + dc in
                  if \<not> in_bounds rr cc then Inr moves
                  else (case cell_at board rr cc of
                          Inl e \<Rightarrow> Inl e
                        | Inr target \<Rightarrow>
                            if target = CHR ''.'' \<or> side_of target \<noteq> Some side
                            then Inr (moves @ [(r, c, rr, cc)])
                            else Inr moves)))
            moves)
       []"

text \<open>
  The body of the two loops of \<^verbatim>\<open>generate_moves\<close> for the square \<open>(r, c)\<close>:
  \<^verbatim>\<open>moves.extend(...)\<close> of the generator the piece letter selects.
\<close>

definition square_moves :: "board \<Rightarrow> char \<Rightarrow> int \<Rightarrow> int \<Rightarrow> move list \<Rightarrow> (error + move list) option" where
  "square_moves board side r c moves =
     (case cell_at board r c of
        Inl e \<Rightarrow> Some (Inl e)
      | Inr piece \<Rightarrow>
          if piece = CHR ''.'' then Some (Inr moves)
          else if side = CHR ''w'' \<and> \<not> is_white piece then Some (Inr moves)
          else if side = CHR ''b'' \<and> \<not> is_black piece then Some (Inr moves)
          else
            (let p = lower piece;
                 generated =
                   (if p = CHR ''p'' then Some (gen_pawn board r c side)
                    else if p = CHR ''n'' then Some (gen_knight board r c side)
                    else if p = CHR ''b'' then gen_bishop board r c side
                    else if p = CHR ''r'' then gen_rook board r c side
                    else if p = CHR ''q'' then gen_queen board r c side
                    else if p = CHR ''k'' then Some (gen_king board r c side)
                    else Some (Inr []))
             in case generated of
                  None \<Rightarrow> None
                | Some (Inl e) \<Rightarrow> Some (Inl e)
                | Some (Inr ms) \<Rightarrow> Some (Inr (moves @ ms))))"

definition generate_moves :: "board \<Rightarrow> char \<Rightarrow> (error + move list) option" where
  "generate_moves board side =
     for_loop_opt (py_range ROWS)
       (\<lambda>r moves. for_loop_opt (py_range COLS) (\<lambda>c moves. square_moves board side r c moves) moves)
       []"

subsection \<open>Move applier\<close>

text \<open>
  \<^verbatim>\<open>new_b = [row.copy() for row in board]\<close> builds new row objects with the same
  contents: as a value \<open>new_b\<close> is \<open>board\<close>, and its rows are shared with nothing.
\<close>

definition apply_move :: "board \<Rightarrow> move \<Rightarrow> error + board" where
  "apply_move board m =
     (case m of (r1, c1, r2, c2) \<Rightarrow>
        (case cell_at board r1 c1 of
           Inl e \<Rightarrow> Inl e
         | Inr piece \<Rightarrow>
             (let new_b = board in
              case set_cell new_b r1 c1 (CHR ''.'') of
                Inl e \<Rightarrow> Inl e
              | Inr new_b \<Rightarrow>
                  (case set_cell new_b r2 c2 piece of
                     Inl e \<Rightarrow> Inl e
                   | Inr new_b \<Rightarrow>
                       (case (if piece = CHR ''P'' \<and> r2 = 0
                              then set_cell new_b r2 c2 (CHR ''Q'') else Inr new_b) of
                          Inl e \<Rightarrow> Inl e
                        | Inr new_b \<Rightarrow>
                            (if piece = CHR ''p'' \<and> r2 = ROWS - 1
                             then set_cell new_b r2 c2 (CHR ''q'') else Inr new_b))))))"

subsection \<open>Terminal-state check\<close>

definition has_moves :: "board \<Rightarrow> char \<Rightarrow> (error + bool) option" where
  "has_moves board side =
     (case generate_moves board side of
        None \<Rightarrow> None
      | Some (Inl e) \<Rightarrow> Some (Inl e)
      | Some (Inr moves) \<Rightarrow> Some (Inr (length moves > 0)))"

subsection \<open>Opponent policy\<close>

definition VALUES :: "(char \<times> int) list" where
  "VALUES =
     [(CHR ''K'', 0), (CHR ''Q'', 9), (CHR ''R'', 5), (CHR ''B'', 3), (CHR ''N'', 3), (CHR ''P'', 1),
      (CHR ''k'', 0), (CHR ''q'', 9), (CHR ''r'', 5), (CHR ''b'', 3), (CHR ''n'', 3), (CHR ''p'', 1)]"

text \<open>\<^verbatim>\<open>VALUES[target]\<close>: a key that is not in the dictionary raises.\<close>

definition values_lookup :: "char \<Rightarrow> error + int" where
  "values_lookup target = (case map_of VALUES target of None \<Rightarrow> Inl KeyError | Some v \<Rightarrow> Inr v)"

text \<open>
  The score the loop of \<^verbatim>\<open>ai_choose_move\<close> gives the move \<open>m\<close>: 0, or the value of the
  piece on the destination cell.
\<close>

definition move_score :: "board \<Rightarrow> move \<Rightarrow> error + int" where
  "move_score board m =
     (case m of (r1, c1, r2, c2) \<Rightarrow>
        (case cell_at board r2 c2 of
           Inl e \<Rightarrow> Inl e
         | Inr target \<Rightarrow> if target \<noteq> CHR ''.'' then values_lookup target else Inr 0))"

text \<open>
  \<^verbatim>\<open>random.choice(seq)\<close>: raises on an empty sequence, and otherwise returns the element
  at a position the generator draws. The draw is the parameter \<open>rnd\<close>; every position is
  drawn by some \<open>rnd\<close>.
\<close>

definition random_choice :: "nat \<Rightarrow> 'a list \<Rightarrow> error + 'a" where
  "random_choice rnd seq =
     (if seq = [] then Inl IndexError else Inr (seq ! (rnd mod length seq)))"

text \<open>The loop of \<^verbatim>\<open>ai_choose_move\<close> over the moves; its state is \<open>(best_moves, best_score)\<close>.\<close>

definition best_step :: "board \<Rightarrow> move \<Rightarrow> move list \<times> int \<Rightarrow> error + move list \<times> int" where
  "best_step board m st =
     (case st of (best_moves, best_score) \<Rightarrow>
        (case move_score board m of
           Inl e \<Rightarrow> Inl e
         | Inr score \<Rightarrow>
             if score > best_score then Inr ([m], score)
             else if score = best_score then Inr (best_moves @ [m], best_score)
             else Inr (best_moves, best_score)))"

definition ai_choose_move :: "board \<Rightarrow> char \<Rightarrow> nat \<Rightarrow> (error + move option) option" where
  "ai_choose_move board side rnd =
     (case generate_moves board side of
        None \<Rightarrow> None
      | Some (Inl e) \<Rightarrow> Some (Inl e)
      | Some (Inr moves) \<Rightarrow>
          if moves = [] then Some (Inr None)
          else
            (case for_loop moves (best_step board) ([], - 999) of
               Inl e \<Rightarrow> Some (Inl e)
             | Inr (best_moves, best_score) \<Rightarrow>
                 (case (if best_moves \<noteq> [] then random_choice rnd best_moves
                        else random_choice rnd moves) of
                    Inl e \<Rightarrow> Some (Inl e)
                  | Inr m \<Rightarrow> Some (Inr (Some m)))))"

subsection \<open>The board as objects in a store\<close>

text \<open>
  Whether a call changes the board it was given is a question about list objects, not
  about list values. For that question the board is kept in a store: a list of objects,
  the address of an object being its position. A row is an object holding characters, a
  board is an object holding the addresses of its rows, and a new object is put at the
  end of the store, so its address is one no object had before.
\<close>

datatype obj = Chars "char list" | Refs "nat list"

type_synonym heap = "obj list"

definition h_alloc :: "heap \<Rightarrow> obj \<Rightarrow> nat \<times> heap" where
  "h_alloc h ob = (length h, h @ [ob])"

definition h_chars :: "heap \<Rightarrow> nat \<Rightarrow> error + char list" where
  "h_chars h a =
     (if a < length h then (case h ! a of Chars cs \<Rightarrow> Inr cs | Refs rs \<Rightarrow> Inl TypeError)
      else Inl TypeError)"

definition h_refs :: "heap \<Rightarrow> nat \<Rightarrow> error + nat list" where
  "h_refs h a =
     (if a < length h then (case h ! a of Refs rs \<Rightarrow> Inr rs | Chars cs \<Rightarrow> Inl TypeError)
      else Inl TypeError)"

text \<open>\<^verbatim>\<open>board[r][c]\<close> and \<^verbatim>\<open>board[r][c] = v\<close> through the store.\<close>

definition h_cell_at :: "heap \<Rightarrow> nat \<Rightarrow> int \<Rightarrow> int \<Rightarrow> error + char" where
  "h_cell_at h board r c =
     (case h_refs h board of
        Inl e \<Rightarrow> Inl e
      | Inr rows \<Rightarrow>
          (case getitem rows r of
             Inl e \<Rightarrow> Inl e
           | Inr row \<Rightarrow> (case h_chars h row of Inl e \<Rightarrow> Inl e | Inr cs \<Rightarrow> getitem cs c)))"

definition h_set_cell :: "heap \<Rightarrow> nat \<Rightarrow> int \<Rightarrow> int \<Rightarrow> char \<Rightarrow> error + heap" where
  "h_set_cell h board r c v =
     (case h_refs h board of
        Inl e \<Rightarrow> Inl e
      | Inr rows \<Rightarrow>
          (case getitem rows r of
             Inl e \<Rightarrow> Inl e
           | Inr row \<Rightarrow>
               (case h_chars h row of
                  Inl e \<Rightarrow> Inl e
                | Inr cs \<Rightarrow>
                    (case setitem cs c v of
                       Inl e \<Rightarrow> Inl e
                     | Inr cs' \<Rightarrow> Inr (h[row := Chars cs'])))))"

text \<open>\<^verbatim>\<open>[row.copy() for row in board]\<close>: one new row object for every row, in order.\<close>

fun copy_rows :: "heap \<Rightarrow> nat list \<Rightarrow> (error + nat list) \<times> heap" where
  "copy_rows h [] = (Inr [], h)"
| "copy_rows h (row # rows) =
     (case h_chars h row of
        Inl e \<Rightarrow> (Inl e, h)
      | Inr cs \<Rightarrow>
          (case h_alloc h (Chars cs) of
             (x, h1) \<Rightarrow>
               (case copy_rows h1 rows of
                  (Inl e, h2) \<Rightarrow> (Inl e, h2)
                | (Inr xs, h2) \<Rightarrow> (Inr (x # xs), h2))))"

text \<open>
  \<^verbatim>\<open>apply_move\<close> statement by statement: the read of the piece, the copy of the rows, the
  new list of rows, and the stores, all of them into \<^verbatim>\<open>new_b\<close>. The store is returned
  with the result, also when the call raises.
\<close>

definition apply_move_h :: "heap \<Rightarrow> nat \<Rightarrow> move \<Rightarrow> (error + nat) \<times> heap" where
  "apply_move_h h board m =
     (case m of (r1, c1, r2, c2) \<Rightarrow>
        (case h_cell_at h board r1 c1 of
           Inl e \<Rightarrow> (Inl e, h)
         | Inr piece \<Rightarrow>
             (case h_refs h board of
                Inl e \<Rightarrow> (Inl e, h)
              | Inr rows \<Rightarrow>
                  (case copy_rows h rows of
                     (Inl e, h1) \<Rightarrow> (Inl e, h1)
                   | (Inr xs, h1) \<Rightarrow>
                       (case h_alloc h1 (Refs xs) of
                          (new_b, h2) \<Rightarrow>
                            (case h_set_cell h2 new_b r1 c1 (CHR ''.'') of
                               Inl e \<Rightarrow> (Inl e, h2)
                             | Inr h3 \<Rightarrow>
                                 (case h_set_cell h3 new_b r2 c2 piece of
                                    Inl e \<Rightarrow> (Inl e, h3)
                                  | Inr h4 \<Rightarrow>
                                      (case (if piece = CHR ''P'' \<and> r2 = 0
                                             then h_set_cell h4 new_b r2 c2 (CHR ''Q'')
                                             else Inr h4) of
                                         Inl e \<Rightarrow> (Inl e, h4)
                                       | Inr h5 \<Rightarrow>
                                           (case (if piece = CHR ''p'' \<and> r2 = ROWS - 1
                                                  then h_set_cell h5 new_b r2 c2 (CHR ''q'')
                                                  else Inr h5) of
                                              Inl e \<Rightarrow> (Inl e, h5)
                                            | Inr h6 \<Rightarrow> (Inr new_b, h6))))))))))"

text \<open>The board value an address stands for, when it is the address of a list of rows.\<close>

definition board_of :: "heap \<Rightarrow> nat \<Rightarrow> board option" where
  "board_of h a =
     (case h_refs h a of
        Inl e \<Rightarrow> None
      | Inr rows \<Rightarrow>
          if list_all (\<lambda>x. case h_chars h x of Inl e \<Rightarrow> False | Inr cs \<Rightarrow> True) rows
          then Some (map (\<lambda>x. case h_chars h x of Inl e \<Rightarrow> [] | Inr cs \<Rightarrow> cs) rows)
          else None)"

text \<open>
  \<^verbatim>\<open>generate_moves\<close> and the generators it calls contain no assignment to \<^verbatim>\<open>board\<close> or to
  a row and call no method on them: they read \<^verbatim>\<open>board[r][c]\<close> and append to lists of
  their own. With the store the call is therefore the function of the board value
  above, and it hands the store back as it got it.
\<close>

definition generate_moves_h :: "heap \<Rightarrow> nat \<Rightarrow> char \<Rightarrow> (error + move list) option \<times> heap" where
  "generate_moves_h h board side =
     (case board_of h board of
        None \<Rightarrow> (Some (Inl TypeError), h)
      | Some b \<Rightarrow> (generate_moves b side, h))"

subsection \<open>Vocabulary of the properties\<close>

text \<open>
  The boards of the program are 8 by 8: \<^verbatim>\<open>new_board\<close> builds one and \<^verbatim>\<open>apply_move\<close> keeps
  the shape. On such a board no read inside \<^verbatim>\<open>in_bounds\<close> raises.
\<close>

definition wf_board :: "board \<Rightarrow> bool" where
  "wf_board b = (int (length b) = ROWS \<and> (\<forall>row \<in> set b. int (length row) = COLS))"

text \<open>The number of cells of a board that are not \<^verbatim>\<open>'.'\<close>.\<close>

definition count_nonempty :: "board \<Rightarrow> nat" where
  "count_nonempty b = sum_list (map (\<lambda>row. length (filter (\<lambda>x. x \<noteq> CHR ''.'') row)) b)"

text \<open>What \<^verbatim>\<open>apply_move\<close> leaves on the destination cell for the piece it read.\<close>

definition promoted :: "char \<Rightarrow> int \<Rightarrow> char" where
  "promoted piece r2 =
     (if piece = CHR ''P'' \<and> r2 = 0 then CHR ''Q''
      else if piece = CHR ''p'' \<and> r2 = 7 then CHR ''q''
      else piece)"

definition origin :: "move \<Rightarrow> int \<times> int" where
  "origin m = (case m of (r1, c1, r2, c2) \<Rightarrow> (r1, c1))"

definition destination :: "move \<Rightarrow> int \<times> int" where
  "destination m = (case m of (r1, c1, r2, c2) \<Rightarrow> (r2, c2))"

text \<open>
  The kinds of move the count on the initial board names: a pawn (\<^verbatim>\<open>'P'\<close> or \<^verbatim>\<open>'p'\<close> on the
  origin) going one or two rows along its column, and a move of a knight.
\<close>

definition pawn_push :: "board \<Rightarrow> int \<Rightarrow> move \<Rightarrow> bool" where
  "pawn_push b n m =
     (case m of (r1, c1, r2, c2) \<Rightarrow>
        (cell_at b r1 c1 = Inr (CHR ''P'') \<or> cell_at b r1 c1 = Inr (CHR ''p'')) \<and>
        c2 = c1 \<and> \<bar>r2 - r1\<bar> = n)"

definition knight_move :: "board \<Rightarrow> move \<Rightarrow> bool" where
  "knight_move b m =
     (case m of (r1, c1, r2, c2) \<Rightarrow>
        cell_at b r1 c1 = Inr (CHR ''N'') \<or> cell_at b r1 c1 = Inr (CHR ''n''))"

text \<open>
  What every generated move satisfies: it starts on the square \<open>(r, c)\<close> of the piece, ends
  inside the board, and ends on an empty cell or on a piece that is not of \<open>side\<close>.
\<close>

definition good_move :: "board \<Rightarrow> char \<Rightarrow> int \<Rightarrow> int \<Rightarrow> move \<Rightarrow> bool" where
  "good_move b side r c m =
     (case m of (r1, c1, r2, c2) \<Rightarrow>
        r1 = r \<and> c1 = c \<and> in_bounds r2 c2 \<and>
        (b ! nat r2 ! nat c2 = CHR ''.'' \<or> side_of (b ! nat r2 ! nat c2) \<noteq> Some side))"

text \<open>
  The move of a knight or a king by the offset \<open>d\<close>, when the generator produces it.
\<close>

definition hop :: "board \<Rightarrow> char \<Rightarrow> int \<Rightarrow> int \<Rightarrow> int \<times> int \<Rightarrow> move list" where
  "hop b side r c d =
     (case d of (dr, dc) \<Rightarrow>
        if in_bounds (r + dr) (c + dc) \<and>
           (b ! nat (r + dr) ! nat (c + dc) = CHR ''.'' \<or>
            side_of (b ! nat (r + dr) ! nat (c + dc)) \<noteq> Some side)
        then [(r, c, r + dr, c + dc)] else [])"

text \<open>The moves \<^verbatim>\<open>generate_moves\<close> adds for the square \<open>(r, c)\<close>.\<close>

definition square_gen :: "board \<Rightarrow> char \<Rightarrow> int \<Rightarrow> int \<Rightarrow> move list" where
  "square_gen b side r c =
     (case square_moves b side r c [] of Some (Inr ms) \<Rightarrow> ms | _ \<Rightarrow> [])"

text \<open>The number of steps the loop of \<^verbatim>\<open>slide_moves\<close> has left before it leaves the board.\<close>

definition ray_measure :: "int \<Rightarrow> int \<Rightarrow> int \<Rightarrow> int \<Rightarrow> nat" where
  "ray_measure dr dc rr cc =
     (if dr > 0 then nat (8 - rr) else if dr < 0 then nat (rr + 1)
      else if dc > 0 then nat (8 - cc) else nat (cc + 1))"

text \<open>
  The cells next to \<open>(r, c)\<close> that are on the board; a king of \<open>side\<close> on \<open>(r, c)\<close>; and
  such a king with a piece of its own side on every cell next to it.
\<close>

definition king_steps :: "(int \<times> int) list" where
  "king_steps = [(- 1, - 1), (- 1, 0), (- 1, 1), (0, - 1), (0, 1), (1, - 1), (1, 0), (1, 1)]"

definition neighbours :: "int \<Rightarrow> int \<Rightarrow> (int \<times> int) list" where
  "neighbours r c =
     filter (\<lambda>(rr, cc). in_bounds rr cc) (map (\<lambda>(dr, dc). (r + dr, c + dc)) king_steps)"

definition king_on :: "board \<Rightarrow> char \<Rightarrow> int \<Rightarrow> int \<Rightarrow> bool" where
  "king_on b side r c =
     ((side = CHR ''w'' \<and> cell_at b r c = Inr (CHR ''K'')) \<or>
      (side = CHR ''b'' \<and> cell_at b r c = Inr (CHR ''k'')))"

definition king_enclosed :: "board \<Rightarrow> char \<Rightarrow> int \<Rightarrow> int \<Rightarrow> bool" where
  "king_enclosed b side r c =
     (king_on b side r c \<and>
      (\<forall>(rr, cc) \<in> set (neighbours r c). \<exists>t. cell_at b rr cc = Inr t \<and> side_of t = Some side))"

text \<open>
  The cells a board of the game holds: \<^verbatim>\<open>'.'\<close> and the twelve piece letters, which are the
  keys of \<^verbatim>\<open>VALUES\<close>.
\<close>

definition valid_cell :: "char \<Rightarrow> bool" where
  "valid_cell x = (x = CHR ''.'' \<or> x \<in> set ''KQRBNPkqrbnp'')"

definition valid_board :: "board \<Rightarrow> bool" where
  "valid_board b = (\<forall>row \<in> set b. \<forall>x \<in> set row. valid_cell x)"

text \<open>
  The material values as the specification lists them: King 0, Queen 9, Rook 5, Bishop 3,
  Knight 3, Pawn 1, and 0 for an empty cell; and the value of the cell a move ends on,
  read before the move.
\<close>

definition piece_value :: "char \<Rightarrow> int" where
  "piece_value x =
     (if x = CHR ''K'' \<or> x = CHR ''k'' then 0
      else if x = CHR ''Q'' \<or> x = CHR ''q'' then 9
      else if x = CHR ''R'' \<or> x = CHR ''r'' then 5
      else if x = CHR ''B'' \<or> x = CHR ''b'' then 3
      else if x = CHR ''N'' \<or> x = CHR ''n'' then 3
      else if x = CHR ''P'' \<or> x = CHR ''p'' then 1
      else 0)"

definition dest_value :: "board \<Rightarrow> move \<Rightarrow> int" where
  "dest_value b m =
     (case m of (r1, c1, r2, c2) \<Rightarrow>
        (case cell_at b r2 c2 of Inl e \<Rightarrow> 0 | Inr t \<Rightarrow> piece_value t))"

text \<open>The store \<open>h\<close> followed by the rows of \<open>b\<close> as new objects and the list of these rows.\<close>

definition placed :: "heap \<Rightarrow> board \<Rightarrow> heap" where
  "placed h b = h @ map Chars b @ [Refs [length h ..< length h + length b]]"

section \<open>Properties\<close>

subsection \<open>Reads and stores on an 8 by 8 board\<close>

lemma norm_index_inside: "0 \<le> i \<Longrightarrow> i < int (length xs) \<Longrightarrow> norm_index xs i = Inr (nat i)"
  by (simp add: norm_index_def)

lemma in_bounds_nat:
  "in_bounds r c \<Longrightarrow> 0 \<le> r \<and> 0 \<le> c \<and> r < 8 \<and> c < 8 \<and> nat r < 8 \<and> nat c < 8"
  unfolding in_bounds_def ROWS_def COLS_def by linarith

lemma wf_board_length: "wf_board b \<Longrightarrow> length b = 8"
  unfolding wf_board_def ROWS_def by linarith

lemma wf_board_row:
  assumes "wf_board b" "0 \<le> r" "r < 8"
  shows "length (b ! nat r) = 8"
proof -
  from assms have "nat r < length b" by (simp add: wf_board_length)
  then have "b ! nat r \<in> set b" by (rule nth_mem)
  with assms(1) have "int (length (b ! nat r)) = COLS" unfolding wf_board_def by blast
  then show ?thesis unfolding COLS_def by linarith
qed

lemma cell_at_wf:
  assumes "wf_board b" "in_bounds r c"
  shows "cell_at b r c = Inr (b ! nat r ! nat c)"
proof -
  from assms have r: "0 \<le> r" "r < 8" and c: "0 \<le> c" "c < 8"
    by (simp_all add: in_bounds_def ROWS_def COLS_def)
  from assms(1) have len: "length b = 8" by (simp add: wf_board_def ROWS_def)
  have row: "length (b ! nat r) = 8" using assms(1) r by (rule wf_board_row)
  show ?thesis
    using r c len row by (simp add: cell_at_def getitem_def norm_index_inside)
qed

lemma set_cell_wf:
  assumes "wf_board b" "in_bounds r c"
  shows "set_cell b r c v = Inr (b[nat r := (b ! nat r)[nat c := v]])"
proof -
  from assms have r: "0 \<le> r" "r < 8" and c: "0 \<le> c" "c < 8"
    by (simp_all add: in_bounds_def ROWS_def COLS_def)
  from assms(1) have len: "length b = 8" by (simp add: wf_board_def ROWS_def)
  have row: "length (b ! nat r) = 8" using assms(1) r by (rule wf_board_row)
  show ?thesis
    using r c len row by (simp add: set_cell_def setitem_def norm_index_inside)
qed

lemma wf_board_update:
  assumes "wf_board b"
  shows "wf_board (b[i := (b ! i)[j := v]])"
proof (cases "i < length b")
  case False
  then have "length b \<le> i" by (simp add: not_less)
  then have "b[i := (b ! i)[j := v]] = b" by (rule list_update_beyond)
  with assms show ?thesis by simp
next
  case True
  let ?x = "(b ! i)[j := v]"
  from True have "b ! i \<in> set b" by (rule nth_mem)
  with assms have "int (length (b ! i)) = COLS" unfolding wf_board_def by blast
  then have lx: "int (length ?x) = COLS" by simp
  have sub: "set (b[i := ?x]) \<subseteq> insert ?x (set b)" by (rule set_update_subset_insert)
  have rows: "\<forall>row \<in> set (b[i := ?x]). int (length row) = COLS"
  proof
    fix row assume "row \<in> set (b[i := ?x])"
    with sub have "row = ?x \<or> row \<in> set b" by blast
    then show "int (length row) = COLS"
    proof
      assume "row = ?x"
      with lx show ?thesis by simp
    next
      assume "row \<in> set b"
      with assms show ?thesis unfolding wf_board_def by blast
    qed
  qed
  from assms have "int (length (b[i := ?x])) = ROWS" unfolding wf_board_def by simp
  with rows show ?thesis unfolding wf_board_def by blast
qed

lemma apply_move_wf:
  assumes wf: "wf_board b" and o: "in_bounds r1 c1" and d: "in_bounds r2 c2"
  defines "b1 \<equiv> b[nat r1 := (b ! nat r1)[nat c1 := CHR ''.'']]"
  shows "apply_move b (r1, c1, r2, c2) =
           Inr (b1[nat r2 := (b1 ! nat r2)[nat c2 := promoted (b ! nat r1 ! nat c1) r2]])"
proof -
  define piece where "piece = b ! nat r1 ! nat c1"
  define P1 where "P1 = (piece = CHR ''P'' \<and> r2 = 0)"
  define P2 where "P2 = (piece = CHR ''p'' \<and> r2 = ROWS - 1)"
  have wf1: "wf_board b1" unfolding b1_def using wf by (rule wf_board_update)
  have rd: "cell_at b r1 c1 = Inr piece"
    unfolding piece_def using wf o by (rule cell_at_wf)
  have s1: "set_cell b r1 c1 (CHR ''.'') = Inr b1"
    unfolding b1_def using wf o by (rule set_cell_wf)
  have s2: "\<And>v. set_cell b1 r2 c2 v = Inr (b1[nat r2 := (b1 ! nat r2)[nat c2 := v]])"
    using wf1 d by (rule set_cell_wf)
  have wf2: "\<And>v. wf_board (b1[nat r2 := (b1 ! nat r2)[nat c2 := v]])"
    using wf1 by (rule wf_board_update)
  have s3: "\<And>v w. set_cell (b1[nat r2 := (b1 ! nat r2)[nat c2 := v]]) r2 c2 w
              = Inr (b1[nat r2 := (b1 ! nat r2)[nat c2 := w]])"
  proof -
    fix v w
    from d have "nat r2 < 8" by (simp add: in_bounds_nat)
    moreover from wf1 have "length b1 = 8" by (simp add: wf_board_def ROWS_def)
    ultimately show "set_cell (b1[nat r2 := (b1 ! nat r2)[nat c2 := v]]) r2 c2 w
              = Inr (b1[nat r2 := (b1 ! nat r2)[nat c2 := w]])"
      by (simp add: set_cell_wf [OF wf2 d])
  qed
  have pr: "promoted piece r2 = (if P1 then CHR ''Q'' else if P2 then CHR ''q'' else piece)"
    by (simp add: promoted_def P1_def P2_def ROWS_def)
  have "apply_move b (r1, c1, r2, c2) =
          (case (if P1 then set_cell (b1[nat r2 := (b1 ! nat r2)[nat c2 := piece]]) r2 c2 (CHR ''Q'')
                 else Inr (b1[nat r2 := (b1 ! nat r2)[nat c2 := piece]])) of
             Inl e \<Rightarrow> Inl e
           | Inr new_b \<Rightarrow> if P2 then set_cell new_b r2 c2 (CHR ''q'') else Inr new_b)"
    unfolding apply_move_def P1_def P2_def by (simp add: rd s1 s2)
  also have "\<dots> = Inr (b1[nat r2 := (b1 ! nat r2)[nat c2 := promoted piece r2]])"
  proof -
    have "\<not> (P1 \<and> P2)" by (auto simp: P1_def P2_def)
    then show ?thesis unfolding pr by (cases P1; cases P2) (simp_all add: s3)
  qed
  finally show ?thesis by (simp add: piece_def)
qed

lemma length_filter_update:
  "i < length xs \<Longrightarrow>
     length (filter P (xs[i := v])) + (if P (xs ! i) then 1 else 0) =
     length (filter P xs) + (if P v then 1 else 0)"
proof (induction xs arbitrary: i)
  case Nil
  then show ?case by simp
next
  case (Cons x xs)
  show ?case
  proof (cases i)
    case 0
    then show ?thesis by simp
  next
    case (Suc j)
    with Cons.prems have "j < length xs" by simp
    from Cons.IH [OF this] Suc show ?thesis by simp
  qed
qed

lemma sum_list_map_update:
  fixes f :: "'a \<Rightarrow> nat"
  shows "i < length xs \<Longrightarrow>
     sum_list (map f (xs[i := y])) + f (xs ! i) = sum_list (map f xs) + f y"
proof (induction xs arbitrary: i)
  case Nil
  then show ?case by simp
next
  case (Cons x xs)
  show ?case
  proof (cases i)
    case 0
    then show ?thesis by simp
  next
    case (Suc j)
    with Cons.prems have "j < length xs" by simp
    from Cons.IH [OF this] Suc show ?thesis by simp
  qed
qed

lemma count_nonempty_update:
  assumes "i < length b" "j < length (b ! i)"
  shows "count_nonempty (b[i := (b ! i)[j := v]]) + (if b ! i ! j \<noteq> CHR ''.'' then 1 else 0) =
         count_nonempty b + (if v \<noteq> CHR ''.'' then 1 else 0)"
proof -
  let ?f = "\<lambda>row. length (filter (\<lambda>x. x \<noteq> CHR ''.'') row)"
  have row: "?f ((b ! i)[j := v]) + (if b ! i ! j \<noteq> CHR ''.'' then 1 else 0) =
        ?f (b ! i) + (if v \<noteq> CHR ''.'' then 1 else 0)"
    using assms(2) by (rule length_filter_update)
  have all: "sum_list (map ?f (b[i := (b ! i)[j := v]])) + ?f (b ! i) =
        sum_list (map ?f b) + ?f ((b ! i)[j := v])"
    using assms(1) by (rule sum_list_map_update)
  from row all show ?thesis unfolding count_nonempty_def by linarith
qed

lemma board_update_read:
  assumes "i < length b" "j < length (b ! i)" "i' < length b" "j' < length (b ! i')"
  shows "b[i := (b ! i)[j := v]] ! i' ! j' = (if i' = i \<and> j' = j then v else b ! i' ! j')"
  using assms by (auto simp: nth_list_update)

subsection \<open>Move applier\<close>

text \<open>
  Claim C6. On an 8 by 8 board, for every move inside the board, \<^verbatim>\<open>apply_move\<close> returns a
  board whose destination cell holds \<^verbatim>\<open>'Q'\<close> when the piece read at the origin is the White
  pawn \<^verbatim>\<open>'P'\<close> and the destination row is 0 (whatever the origin row), \<^verbatim>\<open>'q'\<close> when it is the
  Black pawn \<^verbatim>\<open>'p'\<close> and the destination row is 7, and in every other case the piece that
  was read at the origin, unchanged.
\<close>

theorem apply_move_promotion:
  assumes "wf_board b" "in_bounds r1 c1" "in_bounds r2 c2" "cell_at b r1 c1 = Inr piece"
  shows "\<exists>b'. apply_move b (r1, c1, r2, c2) = Inr b' \<and> wf_board b' \<and>
           (piece = CHR ''P'' \<and> r2 = 0 \<longrightarrow> cell_at b' r2 c2 = Inr (CHR ''Q'')) \<and>
           (piece = CHR ''p'' \<and> r2 = 7 \<longrightarrow> cell_at b' r2 c2 = Inr (CHR ''q'')) \<and>
           (\<not> (piece = CHR ''P'' \<and> r2 = 0) \<and> \<not> (piece = CHR ''p'' \<and> r2 = 7) \<longrightarrow>
              cell_at b' r2 c2 = Inr piece)"
proof -
  define b1 where "b1 = b[nat r1 := (b ! nat r1)[nat c1 := CHR ''.'']]"
  define b' where "b' = b1[nat r2 := (b1 ! nat r2)[nat c2 := promoted piece r2]]"
  have wf1: "wf_board b1" unfolding b1_def using assms(1) by (rule wf_board_update)
  have wf': "wf_board b'" unfolding b'_def using wf1 by (rule wf_board_update)
  from assms have p: "b ! nat r1 ! nat c1 = piece" by (simp add: cell_at_wf)
  have ap: "apply_move b (r1, c1, r2, c2) = Inr b'"
    using apply_move_wf [OF assms(1-3)] p by (simp add: b'_def b1_def)
  from assms(3) have r2: "nat r2 < 8" "nat c2 < 8" by (simp_all add: in_bounds_nat)
  from wf1 have len1: "length b1 = 8" by (simp add: wf_board_def ROWS_def)
  from wf1 assms(3) have row1: "length (b1 ! nat r2) = 8"
    by (simp add: wf_board_row in_bounds_nat)
  have "cell_at b' r2 c2 = Inr (b' ! nat r2 ! nat c2)" using wf' assms(3) by (rule cell_at_wf)
  also have "b' ! nat r2 ! nat c2 = promoted piece r2"
    unfolding b'_def using r2 len1 row1 by simp
  finally have "cell_at b' r2 c2 = Inr (promoted piece r2)" .
  with ap wf' show ?thesis by (auto simp: promoted_def)
qed

text \<open>An instance: the White pawn on \<open>(1, 0)\<close> steps to \<open>(0, 0)\<close> and a queen stands there.\<close>

theorem apply_move_promotion_witness:
  "wf_board [''........'', ''P.......'', ''........'', ''........'',
             ''........'', ''........'', ''........'', ''........''] \<and>
   in_bounds 1 0 \<and> in_bounds 0 0 \<and>
   cell_at [''........'', ''P.......'', ''........'', ''........'',
            ''........'', ''........'', ''........'', ''........''] 1 0 = Inr (CHR ''P'') \<and>
   (\<exists>b'. apply_move [''........'', ''P.......'', ''........'', ''........'',
                      ''........'', ''........'', ''........'', ''........''] (1, 0, 0, 0) = Inr b' \<and>
         wf_board b' \<and> cell_at b' 0 0 = Inr (CHR ''Q''))"
proof -
  let ?b = "[''........'', ''P.......'', ''........'', ''........'',
             ''........'', ''........'', ''........'', ''........'']"
  have h1: "wf_board ?b" by code_simp
  have h2: "in_bounds 1 0" by code_simp
  have h3: "in_bounds 0 0" by code_simp
  have h4: "cell_at ?b 1 0 = Inr (CHR ''P'')" by code_simp
  from apply_move_promotion [OF h1 h2 h3 h4] h1 h2 h3 h4 show ?thesis by auto
qed

text \<open>
  Claim C7. On an 8 by 8 board, for every move inside the board whose origin holds a piece
  and differs from its destination, the board \<^verbatim>\<open>apply_move\<close> returns never has more
  non-empty cells than the input: as many when the destination was empty, exactly one
  fewer when it was occupied.
\<close>

theorem apply_move_count:
  assumes wf: "wf_board b" and o: "in_bounds r1 c1" and d: "in_bounds r2 c2"
    and ne: "(r1, c1) \<noteq> (r2, c2)"
    and src: "cell_at b r1 c1 = Inr piece" "piece \<noteq> CHR ''.''"
    and dst: "cell_at b r2 c2 = Inr target"
  shows "\<exists>b'. apply_move b (r1, c1, r2, c2) = Inr b' \<and>
           count_nonempty b' \<le> count_nonempty b \<and>
           (target = CHR ''.'' \<longrightarrow> count_nonempty b' = count_nonempty b) \<and>
           (target \<noteq> CHR ''.'' \<longrightarrow> count_nonempty b' + 1 = count_nonempty b)"
proof -
  define b1 where "b1 = b[nat r1 := (b ! nat r1)[nat c1 := CHR ''.'']]"
  define b' where "b' = b1[nat r2 := (b1 ! nat r2)[nat c2 := promoted piece r2]]"
  have wf1: "wf_board b1" unfolding b1_def using wf by (rule wf_board_update)
  from src(1) wf o have p: "b ! nat r1 ! nat c1 = piece" by (simp add: cell_at_wf)
  from dst wf d have t: "b ! nat r2 ! nat c2 = target" by (simp add: cell_at_wf)
  have ap: "apply_move b (r1, c1, r2, c2) = Inr b'"
    using apply_move_wf [OF wf o d] p by (simp add: b'_def b1_def)
  from o have i1: "nat r1 < 8" "nat c1 < 8" "0 \<le> r1" "0 \<le> c1"
    by (simp_all add: in_bounds_nat)
  from d have i2: "nat r2 < 8" "nat c2 < 8" "0 \<le> r2" "0 \<le> c2"
    by (simp_all add: in_bounds_nat)
  from wf have len: "length b = 8" by (simp add: wf_board_def ROWS_def)
  from wf1 have len1: "length b1 = 8" by (simp add: wf_board_def ROWS_def)
  have row: "length (b ! nat r1) = 8" "length (b ! nat r2) = 8"
    using wf i1 i2 by (simp_all add: wf_board_row)
  have row1: "length (b1 ! nat r2) = 8" using wf1 i2 by (simp add: wf_board_row)
  have c1: "count_nonempty b1 + 1 = count_nonempty b"
    using count_nonempty_update [of "nat r1" b "nat c1" "CHR ''.''"] i1 len row p src(2)
    by (simp add: b1_def)
  have "nat r1 \<noteq> nat r2 \<or> nat c1 \<noteq> nat c2" using ne i1 i2 by auto
  then have "b1 ! nat r2 ! nat c2 = b ! nat r2 ! nat c2"
    unfolding b1_def using board_update_read [of "nat r1" b "nat c1" "nat r2" "nat c2"] i1 i2 len row
    by auto
  with t have t1: "b1 ! nat r2 ! nat c2 = target" by simp
  have pr: "promoted piece r2 \<noteq> CHR ''.''" using src(2) by (simp add: promoted_def)
  have c2: "count_nonempty b' + (if target \<noteq> CHR ''.'' then 1 else 0) = count_nonempty b1 + 1"
    using count_nonempty_update [of "nat r2" b1 "nat c2" "promoted piece r2"] i2 len1 row1 t1 pr
    by (simp add: b'_def)
  from ap c1 c2 show ?thesis by (auto split: if_splits)
qed

text \<open>
  An instance: on the initial board (32 pieces) the pawn on \<open>(6, 4)\<close> is put on the
  occupied cell \<open>(1, 4)\<close>; 31 pieces remain.
\<close>

theorem apply_move_count_witness:
  "wf_board new_board \<and> in_bounds 6 4 \<and> in_bounds 1 4 \<and> (6, 4) \<noteq> ((1, 4) :: int \<times> int) \<and>
   cell_at new_board 6 4 = Inr (CHR ''P'') \<and> CHR ''P'' \<noteq> CHR ''.'' \<and>
   cell_at new_board 1 4 = Inr (CHR ''p'') \<and> count_nonempty new_board = 32 \<and>
   (\<exists>b'. apply_move new_board (6, 4, 1, 4) = Inr b' \<and> count_nonempty b' = 31)"
proof -
  have h1: "wf_board new_board" by code_simp
  have h2: "in_bounds 6 4" by code_simp
  have h3: "in_bounds 1 4" by code_simp
  have h4: "(6, 4) \<noteq> ((1, 4) :: int \<times> int)" by simp
  have h5: "cell_at new_board 6 4 = Inr (CHR ''P'')" by code_simp
  have h6: "CHR ''P'' \<noteq> CHR ''.''" by simp
  have h7: "cell_at new_board 1 4 = Inr (CHR ''p'')" by code_simp
  have c: "count_nonempty new_board = 32" by code_simp
  from apply_move_count [OF h1 h2 h3 h4 h5 h6 h7] h1 h2 h3 h5 h7 c show ?thesis by auto
qed

text \<open>
  Claim C10. On an 8 by 8 board, for every move inside the board whose origin cell is
  empty, \<^verbatim>\<open>apply_move\<close> raises nothing and returns a board on which the origin and the
  destination are both empty: a piece on the destination is deleted.
\<close>

theorem apply_move_empty_origin:
  assumes wf: "wf_board b" and o: "in_bounds r1 c1" and d: "in_bounds r2 c2"
    and src: "cell_at b r1 c1 = Inr (CHR ''.'')"
  shows "\<exists>b'. apply_move b (r1, c1, r2, c2) = Inr b' \<and>
           cell_at b' r1 c1 = Inr (CHR ''.'') \<and> cell_at b' r2 c2 = Inr (CHR ''.'')"
proof -
  define b1 where "b1 = b[nat r1 := (b ! nat r1)[nat c1 := CHR ''.'']]"
  define b' where "b' = b1[nat r2 := (b1 ! nat r2)[nat c2 := CHR ''.'']]"
  have wf1: "wf_board b1" unfolding b1_def using wf by (rule wf_board_update)
  have wf': "wf_board b'" unfolding b'_def using wf1 by (rule wf_board_update)
  from src wf o have p: "b ! nat r1 ! nat c1 = CHR ''.''" by (simp add: cell_at_wf)
  have ap: "apply_move b (r1, c1, r2, c2) = Inr b'"
    using apply_move_wf [OF wf o d] p by (simp add: b'_def b1_def promoted_def)
  from o have i1: "nat r1 < 8" "nat c1 < 8"
    by (simp_all add: in_bounds_nat)
  from d have i2: "nat r2 < 8" "nat c2 < 8"
    by (simp_all add: in_bounds_nat)
  from wf have len: "length b = 8" by (simp add: wf_board_def ROWS_def)
  from wf1 have len1: "length b1 = 8" by (simp add: wf_board_def ROWS_def)
  have row: "length (b ! nat r1) = 8" using wf o by (simp add: wf_board_row in_bounds_nat)
  have row1: "length (b1 ! nat r1) = 8" "length (b1 ! nat r2) = 8"
    using wf1 o d by (simp_all add: wf_board_row in_bounds_nat)
  have o1: "b1 ! nat r1 ! nat c1 = CHR ''.''"
    unfolding b1_def using i1 len row by simp
  have "b' ! nat r1 ! nat c1 = (if nat r1 = nat r2 \<and> nat c1 = nat c2 then CHR ''.'' else b1 ! nat r1 ! nat c1)"
    unfolding b'_def using i1 i2 len1 row1 by (intro board_update_read) simp_all
  with o1 have o': "b' ! nat r1 ! nat c1 = CHR ''.''" by simp
  have d': "b' ! nat r2 ! nat c2 = CHR ''.''"
    unfolding b'_def using i2 len1 row1 by simp
  from ap o' d' show ?thesis
    by (simp add: cell_at_wf [OF wf' o] cell_at_wf [OF wf' d])
qed

text \<open>
  An instance: moving the empty cell \<open>(3, 3)\<close> of the initial board onto the Black king
  on \<open>(0, 4)\<close> removes the king.
\<close>

theorem apply_move_empty_origin_witness:
  "wf_board new_board \<and> in_bounds 3 3 \<and> in_bounds 0 4 \<and>
   cell_at new_board 3 3 = Inr (CHR ''.'') \<and> cell_at new_board 0 4 = Inr (CHR ''k'') \<and>
   (\<exists>b'. apply_move new_board (3, 3, 0, 4) = Inr b' \<and>
         cell_at b' 3 3 = Inr (CHR ''.'') \<and> cell_at b' 0 4 = Inr (CHR ''.''))"
proof -
  have h1: "wf_board new_board" by code_simp
  have h2: "in_bounds 3 3" by code_simp
  have h3: "in_bounds 0 4" by code_simp
  have h4: "cell_at new_board 3 3 = Inr (CHR ''.'')" by code_simp
  have h5: "cell_at new_board 0 4 = Inr (CHR ''k'')" by code_simp
  from apply_move_empty_origin [OF h1 h2 h3 h4] h1 h2 h3 h4 h5 show ?thesis by auto
qed

subsection \<open>The initial position\<close>

lemma initial_white_moves:
  "generate_moves new_board (CHR ''w'') =
     Some (Inr [(6, 0, 5, 0), (6, 0, 4, 0), (6, 1, 5, 1), (6, 1, 4, 1), (6, 2, 5, 2), (6, 2, 4, 2),
                (6, 3, 5, 3), (6, 3, 4, 3), (6, 4, 5, 4), (6, 4, 4, 4), (6, 5, 5, 5), (6, 5, 4, 5),
                (6, 6, 5, 6), (6, 6, 4, 6), (6, 7, 5, 7), (6, 7, 4, 7),
                (7, 1, 5, 2), (7, 1, 5, 0), (7, 6, 5, 7), (7, 6, 5, 5)])"
  by code_simp

lemma initial_black_moves:
  "generate_moves new_board (CHR ''b'') =
     Some (Inr [(0, 1, 2, 2), (0, 1, 2, 0), (0, 6, 2, 7), (0, 6, 2, 5),
                (1, 0, 2, 0), (1, 0, 3, 0), (1, 1, 2, 1), (1, 1, 3, 1), (1, 2, 2, 2), (1, 2, 3, 2),
                (1, 3, 2, 3), (1, 3, 3, 3), (1, 4, 2, 4), (1, 4, 3, 4), (1, 5, 2, 5), (1, 5, 3, 5),
                (1, 6, 2, 6), (1, 6, 3, 6), (1, 7, 2, 7), (1, 7, 3, 7)])"
  by code_simp

lemma initial_white_kinds:
  "length (filter (pawn_push new_board 1)
     [(6, 0, 5, 0), (6, 0, 4, 0), (6, 1, 5, 1), (6, 1, 4, 1), (6, 2, 5, 2), (6, 2, 4, 2),
      (6, 3, 5, 3), (6, 3, 4, 3), (6, 4, 5, 4), (6, 4, 4, 4), (6, 5, 5, 5), (6, 5, 4, 5),
      (6, 6, 5, 6), (6, 6, 4, 6), (6, 7, 5, 7), (6, 7, 4, 7),
      (7, 1, 5, 2), (7, 1, 5, 0), (7, 6, 5, 7), (7, 6, 5, 5)]) = 8 \<and>
   length (filter (pawn_push new_board 2)
     [(6, 0, 5, 0), (6, 0, 4, 0), (6, 1, 5, 1), (6, 1, 4, 1), (6, 2, 5, 2), (6, 2, 4, 2),
      (6, 3, 5, 3), (6, 3, 4, 3), (6, 4, 5, 4), (6, 4, 4, 4), (6, 5, 5, 5), (6, 5, 4, 5),
      (6, 6, 5, 6), (6, 6, 4, 6), (6, 7, 5, 7), (6, 7, 4, 7),
      (7, 1, 5, 2), (7, 1, 5, 0), (7, 6, 5, 7), (7, 6, 5, 5)]) = 8 \<and>
   length (filter (knight_move new_board)
     [(6, 0, 5, 0), (6, 0, 4, 0), (6, 1, 5, 1), (6, 1, 4, 1), (6, 2, 5, 2), (6, 2, 4, 2),
      (6, 3, 5, 3), (6, 3, 4, 3), (6, 4, 5, 4), (6, 4, 4, 4), (6, 5, 5, 5), (6, 5, 4, 5),
      (6, 6, 5, 6), (6, 6, 4, 6), (6, 7, 5, 7), (6, 7, 4, 7),
      (7, 1, 5, 2), (7, 1, 5, 0), (7, 6, 5, 7), (7, 6, 5, 5)]) = 4"
  by code_simp

lemma initial_black_kinds:
  "length (filter (pawn_push new_board 1)
     [(0, 1, 2, 2), (0, 1, 2, 0), (0, 6, 2, 7), (0, 6, 2, 5),
      (1, 0, 2, 0), (1, 0, 3, 0), (1, 1, 2, 1), (1, 1, 3, 1), (1, 2, 2, 2), (1, 2, 3, 2),
      (1, 3, 2, 3), (1, 3, 3, 3), (1, 4, 2, 4), (1, 4, 3, 4), (1, 5, 2, 5), (1, 5, 3, 5),
      (1, 6, 2, 6), (1, 6, 3, 6), (1, 7, 2, 7), (1, 7, 3, 7)]) = 8 \<and>
   length (filter (pawn_push new_board 2)
     [(0, 1, 2, 2), (0, 1, 2, 0), (0, 6, 2, 7), (0, 6, 2, 5),
      (1, 0, 2, 0), (1, 0, 3, 0), (1, 1, 2, 1), (1, 1, 3, 1), (1, 2, 2, 2), (1, 2, 3, 2),
      (1, 3, 2, 3), (1, 3, 3, 3), (1, 4, 2, 4), (1, 4, 3, 4), (1, 5, 2, 5), (1, 5, 3, 5),
      (1, 6, 2, 6), (1, 6, 3, 6), (1, 7, 2, 7), (1, 7, 3, 7)]) = 8 \<and>
   length (filter (knight_move new_board)
     [(0, 1, 2, 2), (0, 1, 2, 0), (0, 6, 2, 7), (0, 6, 2, 5),
      (1, 0, 2, 0), (1, 0, 3, 0), (1, 1, 2, 1), (1, 1, 3, 1), (1, 2, 2, 2), (1, 2, 3, 2),
      (1, 3, 2, 3), (1, 3, 3, 3), (1, 4, 2, 4), (1, 4, 3, 4), (1, 5, 2, 5), (1, 5, 3, 5),
      (1, 6, 2, 6), (1, 6, 3, 6), (1, 7, 2, 7), (1, 7, 3, 7)]) = 4"
  by code_simp
text \<open>
  Claim C2. On the initial board \<^verbatim>\<open>generate_moves\<close> returns exactly 20 moves for White: 8
  pawn pushes of one row, 8 pawn pushes of two rows and 4 knight moves; and likewise
  exactly 20 moves, with the same split, for Black.
\<close>

theorem initial_board_twenty_moves:
  "\<exists>ws bs.
     generate_moves new_board (CHR ''w'') = Some (Inr ws) \<and> length ws = 20 \<and>
     length (filter (pawn_push new_board 1) ws) = 8 \<and>
     length (filter (pawn_push new_board 2) ws) = 8 \<and>
     length (filter (knight_move new_board) ws) = 4 \<and>
     generate_moves new_board (CHR ''b'') = Some (Inr bs) \<and> length bs = 20 \<and>
     length (filter (pawn_push new_board 1) bs) = 8 \<and>
     length (filter (pawn_push new_board 2) bs) = 8 \<and>
     length (filter (knight_move new_board) bs) = 4"
  unfolding initial_white_moves initial_black_moves
  using initial_white_kinds initial_black_kinds by simp

subsection \<open>The scenario after the White move from \<open>(6, 4)\<close> to \<open>(4, 4)\<close>\<close>

lemma after_e4_board:
  "apply_move new_board (6, 4, 4, 4) =
     Inr [''rnbqkbnr'', ''pppppppp'', ''........'', ''........'',
          ''....P...'', ''........'', ''PPPP.PPP'', ''RNBQKBNR'']"
  by code_simp

lemma after_e4_black_moves:
  "generate_moves [''rnbqkbnr'', ''pppppppp'', ''........'', ''........'',
                   ''....P...'', ''........'', ''PPPP.PPP'', ''RNBQKBNR''] (CHR ''b'') =
     Some (Inr [(0, 1, 2, 2), (0, 1, 2, 0), (0, 6, 2, 7), (0, 6, 2, 5),
                (1, 0, 2, 0), (1, 0, 3, 0), (1, 1, 2, 1), (1, 1, 3, 1), (1, 2, 2, 2), (1, 2, 3, 2),
                (1, 3, 2, 3), (1, 3, 3, 3), (1, 4, 2, 4), (1, 4, 3, 4), (1, 5, 2, 5), (1, 5, 3, 5),
                (1, 6, 2, 6), (1, 6, 3, 6), (1, 7, 2, 7), (1, 7, 3, 7)])"
  by code_simp

lemma after_e4_white_moves:
  "generate_moves [''rnbqkbnr'', ''pppppppp'', ''........'', ''........'',
                   ''....P...'', ''........'', ''PPPP.PPP'', ''RNBQKBNR''] (CHR ''w'') =
     Some (Inr [(4, 4, 3, 4), (6, 0, 5, 0), (6, 0, 4, 0), (6, 1, 5, 1),
        (6, 1, 4, 1), (6, 2, 5, 2), (6, 2, 4, 2), (6, 3, 5, 3),
        (6, 3, 4, 3), (6, 5, 5, 5), (6, 5, 4, 5), (6, 6, 5, 6),
        (6, 6, 4, 6), (6, 7, 5, 7), (6, 7, 4, 7), (7, 1, 5, 2),
        (7, 1, 5, 0), (7, 3, 6, 4), (7, 3, 5, 5), (7, 3, 4, 6),
        (7, 3, 3, 7), (7, 4, 6, 4), (7, 5, 6, 4), (7, 5, 5, 3),
        (7, 5, 4, 2), (7, 5, 3, 1), (7, 5, 2, 0), (7, 6, 5, 7),
        (7, 6, 5, 5), (7, 6, 6, 4)])"
  by code_simp
text \<open>
  Claim C1 says that after the White move from \<open>(6, 4)\<close> to \<open>(4, 4)\<close> the moves of Black
  hold one with origin \<open>(0, 5)\<close>. They do not: the move list of Black is the one of the
  initial position, and the bishop on \<open>(0, 5)\<close> is still behind its own pawns on
  \<open>(1, 4)\<close> and \<open>(1, 6)\<close>.
\<close>

theorem black_bishop_still_blocked:
  "apply_move new_board (6, 4, 4, 4) =
     Inr [''rnbqkbnr'', ''pppppppp'', ''........'', ''........'',
          ''....P...'', ''........'', ''PPPP.PPP'', ''RNBQKBNR''] \<and>
   generate_moves [''rnbqkbnr'', ''pppppppp'', ''........'', ''........'',
                   ''....P...'', ''........'', ''PPPP.PPP'', ''RNBQKBNR''] (CHR ''b'') =
     Some (Inr [(0, 1, 2, 2), (0, 1, 2, 0), (0, 6, 2, 7), (0, 6, 2, 5),
                (1, 0, 2, 0), (1, 0, 3, 0), (1, 1, 2, 1), (1, 1, 3, 1), (1, 2, 2, 2), (1, 2, 3, 2),
                (1, 3, 2, 3), (1, 3, 3, 3), (1, 4, 2, 4), (1, 4, 3, 4), (1, 5, 2, 5), (1, 5, 3, 5),
                (1, 6, 2, 6), (1, 6, 3, 6), (1, 7, 2, 7), (1, 7, 3, 7)]) \<and>
   (0, 5) \<notin> set (map origin
               [(0, 1, 2, 2), (0, 1, 2, 0), (0, 6, 2, 7), (0, 6, 2, 5),
                (1, 0, 2, 0), (1, 0, 3, 0), (1, 1, 2, 1), (1, 1, 3, 1), (1, 2, 2, 2), (1, 2, 3, 2),
                (1, 3, 2, 3), (1, 3, 3, 3), (1, 4, 2, 4), (1, 4, 3, 4), (1, 5, 2, 5), (1, 5, 3, 5),
                (1, 6, 2, 6), (1, 6, 3, 6), (1, 7, 2, 7), (1, 7, 3, 7)])"
  using after_e4_board after_e4_black_moves by (simp add: origin_def)

text \<open>
  Claim C1, amended. After the White move from \<open>(6, 4)\<close> to \<open>(4, 4)\<close> it is the White
  bishop on \<open>(7, 5)\<close> whose diagonal is open: the moves of White hold the move from
  \<open>(7, 5)\<close> to \<open>(6, 4)\<close>, and the moves of Black hold none with origin \<open>(0, 5)\<close>.
\<close>

theorem white_bishop_diagonal_opened:
  "\<exists>b ws bs.
     apply_move new_board (6, 4, 4, 4) = Inr b \<and>
     generate_moves b (CHR ''w'') = Some (Inr ws) \<and>
     (7, 5, 6, 4) \<in> set ws \<and> origin (7, 5, 6, 4) = (7, 5) \<and>
     cell_at b 7 5 = Inr (CHR ''B'') \<and>
     generate_moves b (CHR ''b'') = Some (Inr bs) \<and>
     (0, 5) \<notin> set (map origin bs) \<and>
     cell_at b 0 5 = Inr (CHR ''b'')"
proof -
  have "cell_at [''rnbqkbnr'', ''pppppppp'', ''........'', ''........'',
          ''....P...'', ''........'', ''PPPP.PPP'', ''RNBQKBNR''] 7 5 = Inr (CHR ''B'')"
    by code_simp
  moreover have "cell_at [''rnbqkbnr'', ''pppppppp'', ''........'', ''........'',
          ''....P...'', ''........'', ''PPPP.PPP'', ''RNBQKBNR''] 0 5 = Inr (CHR ''b'')"
    by code_simp
  ultimately show ?thesis
    using after_e4_board after_e4_black_moves after_e4_white_moves by (simp add: origin_def)
qed

subsection \<open>Loops\<close>

lemma for_loop_append:
  assumes "\<And>x s. x \<in> set xs \<Longrightarrow> body x s = Inr (s @ g x)"
  shows "for_loop xs body s = Inr (s @ concat (map g xs))"
  using assms
proof (induction xs arbitrary: s)
  case Nil
  show ?case by simp
next
  case (Cons x xs)
  have step: "body x s = Inr (s @ g x)" by (rule Cons.prems) simp
  have rest: "for_loop xs body (s @ g x) = Inr ((s @ g x) @ concat (map g xs))"
    by (rule Cons.IH) (simp add: Cons.prems)
  show ?case by (simp add: step rest)
qed

lemma for_loop_opt_append:
  assumes "\<And>x s. x \<in> set xs \<Longrightarrow> body x s = Some (Inr (s @ g x))"
  shows "for_loop_opt xs body s = Some (Inr (s @ concat (map g xs)))"
  using assms
proof (induction xs arbitrary: s)
  case Nil
  show ?case by simp
next
  case (Cons x xs)
  have step: "body x s = Some (Inr (s @ g x))" by (rule Cons.prems) simp
  have rest: "for_loop_opt xs body (s @ g x) = Some (Inr ((s @ g x) @ concat (map g xs)))"
    by (rule Cons.IH) (simp add: Cons.prems)
  show ?case by (simp add: step rest)
qed

lemma for_loop_opt_invariant:
  assumes "I s" and "\<And>x s. x \<in> set xs \<Longrightarrow> I s \<Longrightarrow> \<exists>s'. body x s = Some (Inr s') \<and> I s'"
  shows "\<exists>s'. for_loop_opt xs body s = Some (Inr s') \<and> I s'"
  using assms
proof (induction xs arbitrary: s)
  case Nil
  then show ?case by simp
next
  case (Cons x xs)
  from Cons.prems obtain s1 where s1: "body x s = Some (Inr s1)" "I s1" by fastforce
  have "\<exists>s'. for_loop_opt xs body s1 = Some (Inr s') \<and> I s'"
    by (rule Cons.IH [OF s1(2)]) (simp add: Cons.prems(2))
  with s1 show ?case by simp
qed

subsection \<open>The piece generators on an 8 by 8 board\<close>

lemma hop_good: "m \<in> set (hop b side r c d) \<Longrightarrow> good_move b side r c m"
  by (cases d) (auto simp: hop_def good_move_def split: if_splits)

lemma gen_knight_wf:
  assumes "wf_board b"
  shows "gen_knight b r c side =
     Inr (concat (map (hop b side r c)
        [(2, 1), (2, - 1), (- 2, 1), (- 2, - 1), (1, 2), (1, - 2), (- 1, 2), (- 1, - 2)]))"
proof -
  have "gen_knight b r c side =
     Inr ([] @ concat (map (hop b side r c)
        [(2, 1), (2, - 1), (- 2, 1), (- 2, - 1), (1, 2), (1, - 2), (- 1, 2), (- 1, - 2)]))"
    unfolding gen_knight_def Let_def
  proof (rule for_loop_append)
    fix x :: "int \<times> int" and s :: "move list"
    obtain dr dc where x: "x = (dr, dc)" by (cases x)
    show "(case x of
        (dr, dc) \<Rightarrow>
          \<lambda>moves.
             if \<not> in_bounds (r + dr) (c + dc) then Inr moves
             else case cell_at b (r + dr) (c + dc) of Inl e \<Rightarrow> Inl e
                  | Inr target \<Rightarrow>
                      if target = CHR ''.'' \<or> side_of target \<noteq> Some side
                      then Inr (moves @ [(r, c, r + dr, c + dc)]) else Inr moves)
        s = Inr (s @ hop b side r c x)"
      unfolding x by (simp add: hop_def cell_at_wf [OF assms])
  qed
  then show ?thesis by (simp only: append_Nil)
qed

lemma king_inner_body:
  assumes "wf_board b"
  shows "(\<lambda>dc moves.
               if dr = 0 \<and> dc = 0 then Inr moves
               else
                 (let rr = r + dr; cc = c + dc in
                  if \<not> in_bounds rr cc then Inr moves
                  else (case cell_at b rr cc of
                          Inl e \<Rightarrow> Inl e
                        | Inr target \<Rightarrow>
                            if target = CHR ''.'' \<or> side_of target \<noteq> Some side
                            then Inr (moves @ [(r, c, rr, cc)])
                            else Inr moves))) dc s
         = Inr (s @ (if dr = 0 \<and> dc = 0 then [] else hop b side r c (dr, dc)))"
  by (simp add: hop_def Let_def cell_at_wf [OF assms])

lemma gen_king_wf:
  assumes "wf_board b"
  shows "gen_king b r c side =
     Inr (concat (map (\<lambda>dr. concat (map (\<lambda>dc. if dr = 0 \<and> dc = 0 then [] else hop b side r c (dr, dc))
                                      [- 1, 0, 1])) [- 1, 0, 1]))"
proof -
  have inner: "\<And>dr s. for_loop [- 1, 0, 1]
            (\<lambda>dc moves.
               if dr = 0 \<and> dc = 0 then Inr moves
               else
                 (let rr = r + dr; cc = c + dc in
                  if \<not> in_bounds rr cc then Inr moves
                  else (case cell_at b rr cc of
                          Inl e \<Rightarrow> Inl e
                        | Inr target \<Rightarrow>
                            if target = CHR ''.'' \<or> side_of target \<noteq> Some side
                            then Inr (moves @ [(r, c, rr, cc)])
                            else Inr moves))) s =
          Inr (s @ concat (map (\<lambda>dc. if dr = 0 \<and> dc = 0 then [] else hop b side r c (dr, dc)) [- 1, 0, 1]))"
    by (rule for_loop_append) (rule king_inner_body [OF assms])
  have "gen_king b r c side =
     Inr ([] @ concat (map (\<lambda>dr. concat (map (\<lambda>dc. if dr = 0 \<and> dc = 0 then [] else hop b side r c (dr, dc))
                                      [- 1, 0, 1])) [- 1, 0, 1]))"
    unfolding gen_king_def by (rule for_loop_append) (rule inner)
  then show ?thesis by (simp only: append_Nil)
qed

lemma gen_pawn_wf:
  assumes "wf_board b"
  shows "\<exists>ms. gen_pawn b r c side = Inr ms \<and> (\<forall>m \<in> set ms. good_move b side r c m)"
proof -
  define dir :: int where "dir = (if side = CHR ''w'' then - 1 else 1)"
  define start_row :: int where "start_row = (if side = CHR ''w'' then 6 else 1)"
  define pushes where "pushes =
            (if in_bounds (r + dir) c then
               (case cell_at b (r + dir) c of
                  Inl e \<Rightarrow> Inl e
                | Inr t1 \<Rightarrow>
                    if t1 = CHR ''.'' then
                      (let r2 = r + 2 * dir in
                       if r = start_row \<and> in_bounds r2 c then
                         (case cell_at b r2 c of
                            Inl e \<Rightarrow> Inl e
                          | Inr t2 \<Rightarrow>
                              if t2 = CHR ''.'' then
                                (case cell_at b (r + dir) c of
                                   Inl e \<Rightarrow> Inl e
                                 | Inr t1' \<Rightarrow>
                                     if t1' = CHR ''.'' then Inr [(r, c, r + dir, c), (r, c, r2, c)]
                                     else Inr [(r, c, r + dir, c)])
                              else Inr [(r, c, r + dir, c)])
                       else Inr [(r, c, r + dir, c)])
                    else (Inr [] :: error + move list))
             else Inr [])"
  define cap where "cap = (\<lambda>dc (moves :: move list).
                  let cc = c + dc; rr = r + dir in
                  if in_bounds rr cc then
                    (case cell_at b rr cc of
                       Inl e \<Rightarrow> Inl e
                     | Inr target \<Rightarrow>
                         if target \<noteq> CHR ''.'' \<and> side_of target \<noteq> None \<and> side_of target \<noteq> Some side
                         then Inr (moves @ [(r, c, rr, cc)])
                         else Inr moves)
                  else (Inr moves :: error + move list))"
  define g where "g = (\<lambda>dc. if in_bounds (r + dir) (c + dc) \<and>
                              b ! nat (r + dir) ! nat (c + dc) \<noteq> CHR ''.'' \<and>
                              side_of (b ! nat (r + dir) ! nat (c + dc)) \<noteq> Some side
                           then [(r, c, r + dir, c + dc)] else [])"
  have eq: "gen_pawn b r c side =
          (case pushes of Inl e \<Rightarrow> Inl e | Inr moves \<Rightarrow> for_loop [- 1, 1] cap moves)"
    unfolding gen_pawn_def pushes_def cap_def dir_def start_row_def Let_def by (rule refl)
  have capg: "\<And>dc s. cap dc s = Inr (s @ g dc)"
    by (simp add: cap_def g_def Let_def cell_at_wf [OF assms] side_of_def)
  have loop: "\<And>s. for_loop [- 1, 1] cap s = Inr (s @ concat (map g [- 1, 1]))"
    by (rule for_loop_append) (rule capg)
  have gg: "\<And>dc m. m \<in> set (g dc) \<Longrightarrow> good_move b side r c m"
    by (auto simp: g_def good_move_def split: if_splits)
  have "\<exists>ps. pushes = Inr ps \<and> (\<forall>m \<in> set ps. good_move b side r c m)"
    unfolding pushes_def Let_def
    by (auto simp: cell_at_wf [OF assms] good_move_def)
  then obtain ps where ps: "pushes = Inr ps" "\<forall>m \<in> set ps. good_move b side r c m" by blast
  have "gen_pawn b r c side = Inr (ps @ concat (map g [- 1, 1]))"
    by (simp only: eq ps(1) sum.case loop)
  moreover have "\<forall>m \<in> set (ps @ concat (map g [- 1, 1])). good_move b side r c m"
    using ps(2) gg by auto
  ultimately show ?thesis by blast
qed

lemma ray_measure_step:
  assumes "in_bounds rr cc" "dr \<noteq> 0 \<or> dc \<noteq> 0"
  shows "ray_measure dr dc (rr + dr) (cc + dc) < ray_measure dr dc rr cc"
  using assms unfolding ray_measure_def in_bounds_def ROWS_def COLS_def
  by (auto split: if_splits)

lemma slide_ray_wf:
  assumes wf: "wf_board b" and nz: "dr \<noteq> 0 \<or> dc \<noteq> 0"
  shows "\<forall>m \<in> set moves. good_move b side r c m \<Longrightarrow>
         \<exists>ms. slide_ray b r c side dr dc rr cc moves = Some (Inr ms) \<and>
              (\<forall>m \<in> set ms. good_move b side r c m)"
proof (induction "ray_measure dr dc rr cc" arbitrary: rr cc moves rule: less_induct)
  case less
  show ?case
  proof (cases "in_bounds rr cc")
    case False
    then have "slide_ray b r c side dr dc rr cc moves = Some (Inr moves)"
      by (subst slide_ray.simps) simp
    with less.prems show ?thesis by simp
  next
    case True
    let ?t = "b ! nat rr ! nat cc"
    have rd: "cell_at b rr cc = Inr ?t" using wf True by (rule cell_at_wf)
    show ?thesis
    proof (cases "?t = CHR ''.''")
      case False
      then have "slide_ray b r c side dr dc rr cc moves =
          Some (Inr (if side_of ?t \<noteq> Some side then moves @ [(r, c, rr, cc)] else moves))"
        by (subst slide_ray.simps) (simp add: True rd)
      moreover have "side_of ?t \<noteq> Some side \<Longrightarrow> good_move b side r c (r, c, rr, cc)"
        by (simp add: good_move_def True)
      ultimately show ?thesis using less.prems by auto
    next
      case empty: True
      have step: "slide_ray b r c side dr dc rr cc moves =
          slide_ray b r c side dr dc (rr + dr) (cc + dc) (moves @ [(r, c, rr, cc)])"
        by (subst slide_ray.simps) (simp add: True rd empty)
      have dec: "ray_measure dr dc (rr + dr) (cc + dc) < ray_measure dr dc rr cc"
        using True nz by (rule ray_measure_step)
      have "\<forall>m \<in> set (moves @ [(r, c, rr, cc)]). good_move b side r c m"
        using less.prems True empty by (simp add: good_move_def)
      from less.hyps [OF dec this] step show ?thesis by simp
    qed
  qed
qed

lemma slide_moves_wf:
  assumes wf: "wf_board b" and nz: "\<And>dr dc. (dr, dc) \<in> set dirs \<Longrightarrow> dr \<noteq> 0 \<or> dc \<noteq> 0"
  shows "\<exists>ms. slide_moves b r c side dirs = Some (Inr ms) \<and>
              (\<forall>m \<in> set ms. good_move b side r c m)"
  unfolding slide_moves_def
proof (rule for_loop_opt_invariant)
  show "\<forall>m \<in> set []. good_move b side r c m" by simp
next
  fix x :: "int \<times> int" and s :: "move list"
  assume x: "x \<in> set dirs" and s: "\<forall>m \<in> set s. good_move b side r c m"
  obtain dr dc where d: "x = (dr, dc)" by (cases x)
  from x have "(dr, dc) \<in> set dirs" unfolding d .
  then have "dr \<noteq> 0 \<or> dc \<noteq> 0" by (rule nz)
  from slide_ray_wf [OF wf this s]
  show "\<exists>s'. (case x of (dr, dc) \<Rightarrow> \<lambda>moves. slide_ray b r c side dr dc (r + dr) (c + dc) moves) s
               = Some (Inr s') \<and> (\<forall>m \<in> set s'. good_move b side r c m)"
    unfolding d by simp
qed

lemma gen_bishop_wf:
  assumes "wf_board b"
  shows "\<exists>ms. gen_bishop b r c side = Some (Inr ms) \<and> (\<forall>m \<in> set ms. good_move b side r c m)"
  unfolding gen_bishop_def Let_def by (rule slide_moves_wf [OF assms]) auto

lemma gen_rook_wf:
  assumes "wf_board b"
  shows "\<exists>ms. gen_rook b r c side = Some (Inr ms) \<and> (\<forall>m \<in> set ms. good_move b side r c m)"
  unfolding gen_rook_def Let_def by (rule slide_moves_wf [OF assms]) auto

lemma gen_queen_wf:
  assumes "wf_board b"
  shows "\<exists>ms. gen_queen b r c side = Some (Inr ms) \<and> (\<forall>m \<in> set ms. good_move b side r c m)"
  unfolding gen_queen_def Let_def by (rule slide_moves_wf [OF assms]) auto

lemma gen_knight_good:
  assumes "wf_board b"
  shows "\<exists>ms. gen_knight b r c side = Inr ms \<and> (\<forall>m \<in> set ms. good_move b side r c m)"
  unfolding gen_knight_wf [OF assms] using hop_good by fastforce

lemma gen_king_good:
  assumes "wf_board b"
  shows "\<exists>ms. gen_king b r c side = Inr ms \<and> (\<forall>m \<in> set ms. good_move b side r c m)"
  unfolding gen_king_wf [OF assms] using hop_good by (fastforce split: if_splits)

subsection \<open>The scan of the board\<close>

lemma square_moves_wf:
  assumes wf: "wf_board b" and ib: "in_bounds r c"
  shows "\<exists>ms. (\<forall>moves. square_moves b side r c moves = Some (Inr (moves @ ms))) \<and>
              (\<forall>m \<in> set ms. good_move b side r c m)"
proof -
  let ?p = "b ! nat r ! nat c"
  have rd: "cell_at b r c = Inr ?p" using wf ib by (rule cell_at_wf)
  define generated where "generated =
                   (if lower ?p = CHR ''p'' then Some (gen_pawn b r c side)
                    else if lower ?p = CHR ''n'' then Some (gen_knight b r c side)
                    else if lower ?p = CHR ''b'' then gen_bishop b r c side
                    else if lower ?p = CHR ''r'' then gen_rook b r c side
                    else if lower ?p = CHR ''q'' then gen_queen b r c side
                    else if lower ?p = CHR ''k'' then Some (gen_king b r c side)
                    else Some (Inr []))"
  define skip where "skip = (?p = CHR ''.'' \<or> (side = CHR ''w'' \<and> \<not> is_white ?p) \<or>
                             (side = CHR ''b'' \<and> \<not> is_black ?p))"
  have sq: "\<And>moves. square_moves b side r c moves =
          (if skip then Some (Inr moves)
           else case generated of
                  None \<Rightarrow> None
                | Some (Inl e) \<Rightarrow> Some (Inl e)
                | Some (Inr ms) \<Rightarrow> Some (Inr (moves @ ms)))"
    unfolding square_moves_def generated_def skip_def Let_def by (simp add: rd)
  have "\<exists>ms. generated = Some (Inr ms) \<and> (\<forall>m \<in> set ms. good_move b side r c m)"
    unfolding generated_def
    using gen_pawn_wf [OF wf, of r c side] gen_knight_good [OF wf, of r c side]
      gen_king_good [OF wf, of r c side] gen_bishop_wf [OF wf, of r c side]
      gen_rook_wf [OF wf, of r c side] gen_queen_wf [OF wf, of r c side]
    by simp
  then obtain gs where gs: "generated = Some (Inr gs)" "\<forall>m \<in> set gs. good_move b side r c m"
    by blast
  show ?thesis
  proof (cases skip)
    case True
    then have "\<forall>moves. square_moves b side r c moves = Some (Inr (moves @ []))"
      by (simp add: sq)
    then show ?thesis by (intro exI [of _ "[]"]) simp
  next
    case False
    then have "\<forall>moves. square_moves b side r c moves = Some (Inr (moves @ gs))"
      by (simp add: sq gs(1))
    with gs(2) show ?thesis by blast
  qed
qed

lemma square_moves_gen:
  assumes wf: "wf_board b" and ib: "in_bounds r c"
  shows "square_moves b side r c moves = Some (Inr (moves @ square_gen b side r c))"
    and "m \<in> set (square_gen b side r c) \<Longrightarrow> good_move b side r c m"
proof -
  from square_moves_wf [OF wf ib] obtain ms where
    ms: "\<And>moves. square_moves b side r c moves = Some (Inr (moves @ ms))"
        "\<forall>m \<in> set ms. good_move b side r c m"
    by blast
  from ms(1) [of "[]"] have g: "square_gen b side r c = ms" by (simp add: square_gen_def)
  show "square_moves b side r c moves = Some (Inr (moves @ square_gen b side r c))"
    unfolding g by (rule ms(1))
  show "m \<in> set (square_gen b side r c) \<Longrightarrow> good_move b side r c m"
    unfolding g using ms(2) by blast
qed

lemma py_range_8: "x \<in> set (py_range 8) \<longleftrightarrow> 0 \<le> x \<and> x < 8"
  by (auto simp: py_range_def)

lemma generate_moves_wf:
  assumes wf: "wf_board b"
  shows "generate_moves b side =
     Some (Inr (concat (map (\<lambda>r. concat (map (square_gen b side r) (py_range COLS)))
                            (py_range ROWS))))"
proof -
  have inner: "\<And>r s. r \<in> set (py_range ROWS) \<Longrightarrow>
        for_loop_opt (py_range COLS) (\<lambda>c moves. square_moves b side r c moves) s =
          Some (Inr (s @ concat (map (square_gen b side r) (py_range COLS))))"
  proof -
    fix r :: int and s :: "move list"
    assume r: "r \<in> set (py_range ROWS)"
    show "for_loop_opt (py_range COLS) (\<lambda>c moves. square_moves b side r c moves) s =
          Some (Inr (s @ concat (map (square_gen b side r) (py_range COLS))))"
    proof (rule for_loop_opt_append)
      fix c :: int and s' :: "move list"
      assume c: "c \<in> set (py_range COLS)"
      from r c have "in_bounds r c"
        by (simp add: ROWS_def COLS_def py_range_8 in_bounds_def)
      with wf show "square_moves b side r c s' = Some (Inr (s' @ square_gen b side r c))"
        by (rule square_moves_gen(1))
    qed
  qed
  have "generate_moves b side =
     Some (Inr ([] @ concat (map (\<lambda>r. concat (map (square_gen b side r) (py_range COLS)))
                            (py_range ROWS))))"
    unfolding generate_moves_def by (rule for_loop_opt_append) (rule inner)
  then show ?thesis by (simp only: append_Nil)
qed

lemma in_bounds_range: "in_bounds r c \<longleftrightarrow> r \<in> set (py_range ROWS) \<and> c \<in> set (py_range COLS)"
  by (simp add: ROWS_def COLS_def py_range_8 in_bounds_def)

lemma generate_moves_member:
  assumes wf: "wf_board b"
  shows "\<exists>ms. generate_moves b side = Some (Inr ms) \<and>
           (\<forall>m. m \<in> set ms \<longleftrightarrow> (\<exists>r c. in_bounds r c \<and> m \<in> set (square_gen b side r c)))"
proof -
  have "\<And>m. m \<in> set (concat (map (\<lambda>r. concat (map (square_gen b side r) (py_range COLS)))
                            (py_range ROWS))) \<longleftrightarrow>
            (\<exists>r c. in_bounds r c \<and> m \<in> set (square_gen b side r c))"
    unfolding in_bounds_range by auto
  with generate_moves_wf [OF wf, of side] show ?thesis by simp
qed

subsection \<open>The king\<close>

lemma white_king_letter: "is_white (CHR ''K'')" "lower (CHR ''K'') = CHR ''k''"
  by code_simp+

lemma black_king_letter: "is_black (CHR ''k'')" "lower (CHR ''k'') = CHR ''k''"
  by code_simp+

lemma square_moves_king:
  assumes k: "king_on b side r c"
  shows "square_moves b side r c [] =
           (case gen_king b r c side of Inl e \<Rightarrow> Some (Inl e) | Inr ms \<Rightarrow> Some (Inr ([] @ ms)))"
proof -
  from k consider "side = CHR ''w''" "cell_at b r c = Inr (CHR ''K'')"
    | "side = CHR ''b''" "cell_at b r c = Inr (CHR ''k'')"
    unfolding king_on_def by blast
  then show ?thesis
  proof cases
    case 1
    then show ?thesis
      unfolding square_moves_def Let_def
      by (simp add: white_king_letter split: sum.split)
  next
    case 2
    then show ?thesis
      unfolding square_moves_def Let_def
      by (simp add: black_king_letter split: sum.split)
  qed
qed

lemma square_gen_king:
  assumes wf: "wf_board b" and k: "king_on b side r c"
  shows "square_gen b side r c =
     concat (map (\<lambda>dr. concat (map (\<lambda>dc. if dr = 0 \<and> dc = 0 then [] else hop b side r c (dr, dc))
                                      [- 1, 0, 1])) [- 1, 0, 1])"
  unfolding square_gen_def square_moves_king [OF k] gen_king_wf [OF wf] by simp

lemma square_gen_king_set:
  assumes wf: "wf_board b" and k: "king_on b side r c"
  shows "set (square_gen b side r c) = (\<Union>d \<in> set king_steps. set (hop b side r c d))"
  unfolding square_gen_king [OF wf k] king_steps_def by auto

lemma hop_enclosed:
  assumes wf: "wf_board b" and e: "king_enclosed b side r c" and d: "d \<in> set king_steps"
  shows "hop b side r c d = []"
proof -
  obtain dr dc where dd: "d = (dr, dc)" by (cases d)
  show ?thesis
  proof (cases "in_bounds (r + dr) (c + dc)")
    case False
    then show ?thesis by (simp add: hop_def dd)
  next
    case True
    with d have "(r + dr, c + dc) \<in> set (neighbours r c)"
      unfolding neighbours_def dd by force
    with e obtain t where t: "cell_at b (r + dr) (c + dc) = Inr t" "side_of t = Some side"
      unfolding king_enclosed_def by blast
    from t(1) have tt: "b ! nat (r + dr) ! nat (c + dc) = t" by (simp add: cell_at_wf [OF wf True])
    from t(2) have "t \<noteq> CHR ''.''" by (auto simp: side_of_def)
    with t(2) tt show ?thesis by (simp add: hop_def dd)
  qed
qed

lemma hop_vacant:
  assumes wf: "wf_board b" and n: "(rr, cc) \<in> set (neighbours r c)"
    and v: "cell_at b rr cc = Inr (CHR ''.'')"
  shows "\<exists>d \<in> set king_steps. (r, c, rr, cc) \<in> set (hop b side r c d)"
proof -
  from n obtain dr dc where d: "(dr, dc) \<in> set king_steps" "rr = r + dr" "cc = c + dc"
    and ib: "in_bounds rr cc"
    unfolding neighbours_def by auto
  from v have "b ! nat rr ! nat cc = CHR ''.''" by (simp add: cell_at_wf [OF wf ib])
  with ib have "(r, c, rr, cc) \<in> set (hop b side r c (dr, dc))"
    unfolding d(2,3) by (simp add: hop_def)
  with d(1) show ?thesis by blast
qed

subsection \<open>Destinations of the generated moves\<close>

text \<open>
  Claim C5. On an 8 by 8 board, for every side, \<^verbatim>\<open>generate_moves\<close> returns, and every move
  of its list has its origin and its destination inside the board and ends on a cell that
  is empty or holds a piece that is not of the moving side: of Black when White moves, of
  White when Black moves.
\<close>

theorem generate_moves_targets:
  assumes wf: "wf_board b"
  shows "\<exists>ms. generate_moves b s = Some (Inr ms) \<and>
           (\<forall>(r1, c1, r2, c2) \<in> set ms.
              in_bounds r1 c1 \<and> in_bounds r2 c2 \<and>
              (\<exists>t. cell_at b r2 c2 = Inr t \<and>
                   (t = CHR ''.'' \<or>
                    (side_of t \<noteq> Some s \<and>
                     (s = CHR ''w'' \<longrightarrow> side_of t = Some (CHR ''b'')) \<and>
                     (s = CHR ''b'' \<longrightarrow> side_of t = Some (CHR ''w''))))))"
proof -
  from generate_moves_member [OF wf, of s] obtain ms where
    ms: "generate_moves b s = Some (Inr ms)"
        "\<And>m. m \<in> set ms \<longleftrightarrow> (\<exists>r c. in_bounds r c \<and> m \<in> set (square_gen b s r c))"
    by blast
  have "\<And>r1 c1 r2 c2. (r1, c1, r2, c2) \<in> set ms \<Longrightarrow>
              in_bounds r1 c1 \<and> in_bounds r2 c2 \<and>
              (\<exists>t. cell_at b r2 c2 = Inr t \<and>
                   (t = CHR ''.'' \<or>
                    (side_of t \<noteq> Some s \<and>
                     (s = CHR ''w'' \<longrightarrow> side_of t = Some (CHR ''b'')) \<and>
                     (s = CHR ''b'' \<longrightarrow> side_of t = Some (CHR ''w'')))))"
  proof -
    fix r1 c1 r2 c2 assume "(r1, c1, r2, c2) \<in> set ms"
    with ms(2) obtain r c where rc: "in_bounds r c" "(r1, c1, r2, c2) \<in> set (square_gen b s r c)"
      by blast
    from square_moves_gen(2) [OF wf rc(1) rc(2)]
    have g: "r1 = r" "c1 = c" "in_bounds r2 c2"
      "b ! nat r2 ! nat c2 = CHR ''.'' \<or> side_of (b ! nat r2 ! nat c2) \<noteq> Some s"
      by (simp_all add: good_move_def)
    have rd: "cell_at b r2 c2 = Inr (b ! nat r2 ! nat c2)" using wf g(3) by (rule cell_at_wf)
    from g(4) have "b ! nat r2 ! nat c2 = CHR ''.'' \<or>
                    (side_of (b ! nat r2 ! nat c2) \<noteq> Some s \<and>
                     (s = CHR ''w'' \<longrightarrow> side_of (b ! nat r2 ! nat c2) = Some (CHR ''b'')) \<and>
                     (s = CHR ''b'' \<longrightarrow> side_of (b ! nat r2 ! nat c2) = Some (CHR ''w'')))"
      by (auto simp: side_of_def split: if_splits)
    with rc(1) g(1-3) rd
    show "in_bounds r1 c1 \<and> in_bounds r2 c2 \<and>
              (\<exists>t. cell_at b r2 c2 = Inr t \<and>
                   (t = CHR ''.'' \<or>
                    (side_of t \<noteq> Some s \<and>
                     (s = CHR ''w'' \<longrightarrow> side_of t = Some (CHR ''b'')) \<and>
                     (s = CHR ''b'' \<longrightarrow> side_of t = Some (CHR ''w'')))))"
      by simp
  qed
  with ms(1) show ?thesis by blast
qed

text \<open>
  An instance: on the initial board the White knight move from \<open>(7, 1)\<close> to the empty cell
  \<open>(5, 2)\<close>.
\<close>

theorem generate_moves_targets_witness:
  "wf_board new_board \<and>
   (\<exists>ms. generate_moves new_board (CHR ''w'') = Some (Inr ms) \<and> (7, 1, 5, 2) \<in> set ms \<and>
         in_bounds 7 1 \<and> in_bounds 5 2 \<and> cell_at new_board 5 2 = Inr (CHR ''.''))"
proof -
  have h: "wf_board new_board" by code_simp
  from generate_moves_targets [OF h, of "CHR ''w''"] obtain ms where
    ms: "generate_moves new_board (CHR ''w'') = Some (Inr ms)"
        "\<forall>(r1, c1, r2, c2) \<in> set ms.
              in_bounds r1 c1 \<and> in_bounds r2 c2 \<and>
              (\<exists>t. cell_at new_board r2 c2 = Inr t \<and>
                   (t = CHR ''.'' \<or>
                    (side_of t \<noteq> Some (CHR ''w'') \<and>
                     (CHR ''w'' = CHR ''w'' \<longrightarrow> side_of t = Some (CHR ''b'')) \<and>
                     (CHR ''w'' = CHR ''b'' \<longrightarrow> side_of t = Some (CHR ''w'')))))"
    by blast
  from ms(1) have mem: "(7, 1, 5, 2) \<in> set ms" unfolding initial_white_moves by auto
  with ms(2) have "in_bounds 7 1 \<and> in_bounds 5 2" by fastforce
  moreover have "cell_at new_board 5 2 = Inr (CHR ''.'')" by code_simp
  ultimately show ?thesis using h ms(1) mem by blast
qed

subsection \<open>A king with its own pieces around it\<close>

text \<open>
  Claim C4 says that \<^verbatim>\<open>has_moves\<close> is false whenever the board holds only a king and eight
  pieces of its side around it. With a White king on \<open>(4, 4)\<close> and eight White pawns
  around it nothing else is on the board, and \<^verbatim>\<open>has_moves\<close> is true: the pawns on row 3
  can advance.
\<close>

theorem enclosed_king_can_have_moves:
  "king_enclosed [''........'', ''........'', ''........'', ''...PPP..'',
                  ''...PKP..'', ''...PPP..'', ''........'', ''........''] (CHR ''w'') 4 4 \<and>
   count_nonempty [''........'', ''........'', ''........'', ''...PPP..'',
                   ''...PKP..'', ''...PPP..'', ''........'', ''........''] = 9 \<and>
   has_moves [''........'', ''........'', ''........'', ''...PPP..'',
              ''...PKP..'', ''...PPP..'', ''........'', ''........''] (CHR ''w'') = Some (Inr True)"
  by code_simp

text \<open>
  Claim C4, amended. On an 8 by 8 board with a king of the queried side whose neighbouring
  cells all hold pieces of that side, \<^verbatim>\<open>generate_moves\<close> holds no move of the king, so
  \<^verbatim>\<open>has_moves\<close> is false exactly when the other pieces have no move. On an 8 by 8 board
  with a king of the queried side, \<^verbatim>\<open>has_moves\<close> is true as soon as one neighbouring cell
  of the king is empty.
\<close>

theorem enclosed_king_moves:
  assumes wf: "wf_board b"
  shows "(king_enclosed b side r c \<longrightarrow>
            (\<exists>ms. generate_moves b side = Some (Inr ms) \<and>
                  (\<forall>m \<in> set ms. origin m \<noteq> (r, c)) \<and>
                  has_moves b side = Some (Inr (ms \<noteq> [])))) \<and>
         (king_on b side r c \<and> in_bounds r c \<and>
          (\<exists>(rr, cc) \<in> set (neighbours r c). cell_at b rr cc = Inr (CHR ''.'')) \<longrightarrow>
            has_moves b side = Some (Inr True))"
proof (intro conjI impI)
  from generate_moves_member [OF wf, of side] obtain ms where
    ms: "generate_moves b side = Some (Inr ms)"
        "\<And>m. m \<in> set ms \<longleftrightarrow> (\<exists>r c. in_bounds r c \<and> m \<in> set (square_gen b side r c))"
    by blast
  have hm: "has_moves b side = Some (Inr (ms \<noteq> []))" by (simp add: has_moves_def ms(1))
  {
    assume e: "king_enclosed b side r c"
    then have k: "king_on b side r c" by (simp add: king_enclosed_def)
    have none: "set (square_gen b side r c) = {}"
      unfolding square_gen_king_set [OF wf k] using hop_enclosed [OF wf e] by simp
    have "\<forall>m \<in> set ms. origin m \<noteq> (r, c)"
    proof
      fix m assume "m \<in> set ms"
      with ms(2) obtain r' c' where rc: "in_bounds r' c'" "m \<in> set (square_gen b side r' c')"
        by blast
      from square_moves_gen(2) [OF wf rc(1) rc(2)] have o: "origin m = (r', c')"
        by (cases m) (simp add: good_move_def origin_def)
      show "origin m \<noteq> (r, c)"
      proof
        assume "origin m = (r, c)"
        with o rc(2) have "m \<in> set (square_gen b side r c)" by simp
        with none show False by simp
      qed
    qed
    with ms(1) hm show "\<exists>ms. generate_moves b side = Some (Inr ms) \<and>
                  (\<forall>m \<in> set ms. origin m \<noteq> (r, c)) \<and>
                  has_moves b side = Some (Inr (ms \<noteq> []))"
      by blast
  }
  {
    assume a: "king_on b side r c \<and> in_bounds r c \<and>
          (\<exists>(rr, cc) \<in> set (neighbours r c). cell_at b rr cc = Inr (CHR ''.''))"
    then have k: "king_on b side r c" and ib: "in_bounds r c" by simp_all
    from a obtain rr cc where n: "(rr, cc) \<in> set (neighbours r c)"
      and v: "cell_at b rr cc = Inr (CHR ''.'')" by auto
    from hop_vacant [OF wf n v, of side] have "(r, c, rr, cc) \<in> set (square_gen b side r c)"
      unfolding square_gen_king_set [OF wf k] by blast
    with ib ms(2) have "(r, c, rr, cc) \<in> set ms" by blast
    then have "ms \<noteq> []" by auto
    with hm show "has_moves b side = Some (Inr True)" by simp
  }
qed

lemma corner_ring_moves:
  "generate_moves [''PPP.....'', ''PKP.....'', ''PPP.....'', ''........'',
                   ''........'', ''........'', ''........'', ''........''] (CHR ''w'') = Some (Inr [])"
  by code_simp

text \<open>
  An instance of each half: a White king on \<open>(1, 1)\<close> with eight White pawns around it has
  no move at all, and once the pawn on \<open>(0, 0)\<close> is taken away \<^verbatim>\<open>has_moves\<close> is true.
\<close>

theorem enclosed_king_moves_witness:
  "wf_board [''PPP.....'', ''PKP.....'', ''PPP.....'', ''........'',
             ''........'', ''........'', ''........'', ''........''] \<and>
   king_enclosed [''PPP.....'', ''PKP.....'', ''PPP.....'', ''........'',
                  ''........'', ''........'', ''........'', ''........''] (CHR ''w'') 1 1 \<and>
   has_moves [''PPP.....'', ''PKP.....'', ''PPP.....'', ''........'',
              ''........'', ''........'', ''........'', ''........''] (CHR ''w'') = Some (Inr False) \<and>
   wf_board [''.PP.....'', ''PKP.....'', ''PPP.....'', ''........'',
             ''........'', ''........'', ''........'', ''........''] \<and>
   king_on [''.PP.....'', ''PKP.....'', ''PPP.....'', ''........'',
            ''........'', ''........'', ''........'', ''........''] (CHR ''w'') 1 1 \<and>
   in_bounds 1 1 \<and> (0, 0) \<in> set (neighbours 1 1) \<and>
   cell_at [''.PP.....'', ''PKP.....'', ''PPP.....'', ''........'',
            ''........'', ''........'', ''........'', ''........''] 0 0 = Inr (CHR ''.'') \<and>
   has_moves [''.PP.....'', ''PKP.....'', ''PPP.....'', ''........'',
              ''........'', ''........'', ''........'', ''........''] (CHR ''w'') = Some (Inr True)"
proof -
  let ?R = "[''PPP.....'', ''PKP.....'', ''PPP.....'', ''........'',
             ''........'', ''........'', ''........'', ''........'']"
  let ?V = "[''.PP.....'', ''PKP.....'', ''PPP.....'', ''........'',
             ''........'', ''........'', ''........'', ''........'']"
  have w1: "wf_board ?R" by code_simp
  have e1: "king_enclosed ?R (CHR ''w'') 1 1" by code_simp
  have w2: "wf_board ?V" by code_simp
  have k2: "king_on ?V (CHR ''w'') 1 1" by code_simp
  have i2: "in_bounds 1 1" by code_simp
  have n2: "(0, 0) \<in> set (neighbours 1 1)" by code_simp
  have v2: "cell_at ?V 0 0 = Inr (CHR ''.'')" by code_simp
  from enclosed_king_moves [OF w1, of "CHR ''w''" 1 1] e1
  obtain ms where ms: "generate_moves ?R (CHR ''w'') = Some (Inr ms)"
    "has_moves ?R (CHR ''w'') = Some (Inr (ms \<noteq> []))" by blast
  from ms(1) have "ms = []" unfolding corner_ring_moves by simp
  with ms(2) have f: "has_moves ?R (CHR ''w'') = Some (Inr False)" by simp
  from n2 v2 have "\<exists>(rr, cc) \<in> set (neighbours 1 1). cell_at ?V rr cc = Inr (CHR ''.'')"
    by blast
  with enclosed_king_moves [OF w2, of "CHR ''w''" 1 1] k2 i2
  have t: "has_moves ?V (CHR ''w'') = Some (Inr True)" by blast
  from w1 e1 f w2 k2 i2 n2 v2 t show ?thesis by blast
qed

subsection \<open>Opponent policy\<close>

lemma for_loop_prefix:
  assumes "I pre s"
    and "\<And>pre x s. x \<in> set xs \<Longrightarrow> I pre s \<Longrightarrow> \<exists>s'. body x s = Inr s' \<and> I (pre @ [x]) s'"
  shows "\<exists>s'. for_loop xs body s = Inr s' \<and> I (pre @ xs) s'"
  using assms
proof (induction xs arbitrary: pre s)
  case Nil
  then show ?case by simp
next
  case (Cons x xs)
  from Cons.prems obtain s1 where s1: "body x s = Inr s1" "I (pre @ [x]) s1" by fastforce
  have "\<exists>s'. for_loop xs body s1 = Inr s' \<and> I ((pre @ [x]) @ xs) s'"
    by (rule Cons.IH [OF s1(2)]) (simp add: Cons.prems(2))
  with s1 show ?case by simp
qed

lemma best_loop_subset:
  "for_loop ms (best_step b) (bm, bs) = Inr (bm', bs') \<Longrightarrow> set bm' \<subseteq> set bm \<union> set ms"
proof (induction ms arbitrary: bm bs)
  case Nil
  then show ?case by simp
next
  case (Cons m ms)
  from Cons.prems obtain st where st: "best_step b m (bm, bs) = Inr st"
    and rest: "for_loop ms (best_step b) st = Inr (bm', bs')"
    by (auto split: sum.splits)
  obtain bm1 bs1 where st1: "st = (bm1, bs1)" by (cases st)
  from st have "set bm1 \<subseteq> set bm \<union> {m}"
    unfolding st1 best_step_def by (auto split: sum.splits if_splits)
  moreover from rest have "set bm' \<subseteq> set bm1 \<union> set ms" unfolding st1 by (rule Cons.IH)
  ultimately show ?case by auto
qed

lemma random_choice_member: "random_choice rnd xs = Inr x \<Longrightarrow> x \<in> set xs"
  by (auto simp: random_choice_def split: if_splits)

lemma random_choice_nonempty: "xs \<noteq> [] \<Longrightarrow> \<exists>x. random_choice rnd xs = Inr x \<and> x \<in> set xs"
  by (simp add: random_choice_def)

lemma ai_choose_move_none:
  "ai_choose_move b s rnd = Some (Inr None) \<longleftrightarrow> generate_moves b s = Some (Inr [])"
  unfolding ai_choose_move_def
  by (auto split: option.splits sum.splits prod.splits if_splits)

lemma ai_choose_move_member:
  assumes "ai_choose_move b s rnd = Some (Inr (Some m))"
  shows "\<exists>ms. generate_moves b s = Some (Inr ms) \<and> m \<in> set ms"
proof -
  from assms obtain ms where ms: "generate_moves b s = Some (Inr ms)" "ms \<noteq> []"
    unfolding ai_choose_move_def by (auto split: option.splits sum.splits if_splits)
  with assms obtain bm bs where loop: "for_loop ms (best_step b) ([], - 999) = Inr (bm, bs)"
    and ch: "(if bm \<noteq> [] then random_choice rnd bm else random_choice rnd ms) = Inr m"
    unfolding ai_choose_move_def by (auto split: sum.splits prod.splits)
  from loop have sub: "set bm \<subseteq> set ms" using best_loop_subset by fastforce
  from ch have "m \<in> set bm \<or> m \<in> set ms"
    by (auto split: if_splits dest: random_choice_member)
  with sub ms(1) show ?thesis by blast
qed

lemma values_lookup_table:
  "map values_lookup ''KQRBNPkqrbnp'' = map Inr [0, 9, 5, 3, 3, 1, 0, 9, 5, 3, 3, 1]"
  by (simp add: values_lookup_def VALUES_def)

lemma valid_cell_score:
  assumes "valid_cell t"
  shows "(if t \<noteq> CHR ''.'' then values_lookup t else Inr 0) = Inr (piece_value t)"
  using assms unfolding valid_cell_def
  by (auto simp: values_lookup_def VALUES_def piece_value_def)

lemma piece_value_bounds: "0 \<le> piece_value t \<and> piece_value t \<le> 9"
  by (simp add: piece_value_def)

lemma valid_board_cell:
  assumes wf: "wf_board b" and v: "valid_board b" and ib: "in_bounds r c"
  shows "valid_cell (b ! nat r ! nat c)"
proof -
  from ib have r: "0 \<le> r" "r < 8" "nat r < 8" "nat c < 8" by (simp_all add: in_bounds_nat)
  from wf r have "nat r < length b" by (simp add: wf_board_length)
  then have row: "b ! nat r \<in> set b" by (rule nth_mem)
  from wf r have "nat c < length (b ! nat r)" by (simp add: wf_board_row)
  then have "b ! nat r ! nat c \<in> set (b ! nat r)" by (rule nth_mem)
  with row v show ?thesis unfolding valid_board_def by blast
qed

lemma move_score_valid:
  assumes wf: "wf_board b" and v: "valid_board b" and ib: "in_bounds r2 c2"
  shows "move_score b (r1, c1, r2, c2) = Inr (dest_value b (r1, c1, r2, c2))"
  unfolding move_score_def dest_value_def
  using valid_cell_score [OF valid_board_cell [OF wf v ib]]
  by (simp add: cell_at_wf [OF wf ib])

lemma best_step_cases:
  assumes "move_score b m = Inr v"
  shows "best_step b m (bm, bs) =
           Inr (if v > bs then ([m], v) else if v = bs then (bm @ [m], bs) else (bm, bs))"
  using assms by (simp add: best_step_def)

lemma best_loop_max:
  assumes sc: "\<And>m. m \<in> set ms \<Longrightarrow> move_score b m = Inr (f m) \<and> 0 \<le> f m" and ne: "ms \<noteq> []"
  shows "\<exists>bm bs. for_loop ms (best_step b) ([], - 999) = Inr (bm, bs) \<and> bm \<noteq> [] \<and>
           set bm \<subseteq> set ms \<and> (\<forall>m \<in> set bm. f m = bs) \<and> (\<forall>m \<in> set ms. f m \<le> bs)"
proof -
  define I where "I = (\<lambda>pre (st :: move list \<times> int).
     (pre = [] \<and> st = ([], - 999)) \<or>
     (pre \<noteq> [] \<and> fst st \<noteq> [] \<and> set (fst st) \<subseteq> set pre \<and>
      (\<forall>m \<in> set (fst st). f m = snd st) \<and> (\<forall>m \<in> set pre. f m \<le> snd st)))"
  have init: "I [] ([], - 999)" by (simp add: I_def)
  have step: "\<And>pre x st. x \<in> set ms \<Longrightarrow> I pre st \<Longrightarrow>
                 \<exists>st'. best_step b x st = Inr st' \<and> I (pre @ [x]) st'"
  proof -
    fix pre x and st :: "move list \<times> int"
    assume x: "x \<in> set ms" and inv: "I pre st"
    obtain bm bs where st: "st = (bm, bs)" by (cases st)
    from sc [OF x] have sx: "move_score b x = Inr (f x)" and pos: "0 \<le> f x" by simp_all
    let ?st' = "if f x > bs then ([x], f x) else if f x = bs then (bm @ [x], bs) else (bm, bs)"
    have eq: "best_step b x st = Inr ?st'" unfolding st using sx by (rule best_step_cases)
    have "I (pre @ [x]) ?st'"
    proof (cases "pre = []")
      case True
      with inv have "bm = []" "bs = - 999" by (simp_all add: I_def st)
      with pos True show ?thesis by (simp add: I_def)
    next
      case False
      with inv have a: "bm \<noteq> []" "set bm \<subseteq> set pre" "\<forall>m \<in> set bm. f m = bs"
        "\<forall>m \<in> set pre. f m \<le> bs" by (simp_all add: I_def st)
      then show ?thesis by (auto simp: I_def)
    qed
    with eq show "\<exists>st'. best_step b x st = Inr st' \<and> I (pre @ [x]) st'" by blast
  qed
  have "\<exists>st'. for_loop ms (best_step b) ([], - 999) = Inr st' \<and> I ([] @ ms) st'"
    using init step by (rule for_loop_prefix)
  then obtain st' where r: "for_loop ms (best_step b) ([], - 999) = Inr st'" "I ms st'" by auto
  obtain bm bs where st': "st' = (bm, bs)" by (cases st')
  from r(2) ne have "bm \<noteq> [] \<and> set bm \<subseteq> set ms \<and> (\<forall>m \<in> set bm. f m = bs) \<and>
                     (\<forall>m \<in> set ms. f m \<le> bs)"
    by (simp add: I_def st')
  with r(1) show ?thesis unfolding st' by blast
qed

lemma generate_moves_good:
  assumes wf: "wf_board b"
  shows "\<exists>ms. generate_moves b s = Some (Inr ms) \<and>
              (\<forall>m \<in> set ms. \<exists>r c. in_bounds r c \<and> good_move b s r c m)"
proof -
  from generate_moves_member [OF wf, of s] obtain ms where
    ms: "generate_moves b s = Some (Inr ms)"
        "\<And>m. m \<in> set ms \<longleftrightarrow> (\<exists>r c. in_bounds r c \<and> m \<in> set (square_gen b s r c))"
    by blast
  have "\<forall>m \<in> set ms. \<exists>r c. in_bounds r c \<and> good_move b s r c m"
  proof
    fix m assume "m \<in> set ms"
    with ms(2) obtain r c where rc: "in_bounds r c" "m \<in> set (square_gen b s r c)" by blast
    from square_moves_gen(2) [OF wf rc] rc(1)
    show "\<exists>r c. in_bounds r c \<and> good_move b s r c m" by blast
  qed
  with ms(1) show ?thesis by blast
qed

lemma generate_moves_scores:
  assumes wf: "wf_board b" and v: "valid_board b"
  shows "\<exists>ms. generate_moves b s = Some (Inr ms) \<and>
              (\<forall>m \<in> set ms. move_score b m = Inr (dest_value b m))"
proof -
  from generate_moves_good [OF wf, of s] obtain ms where
    ms: "generate_moves b s = Some (Inr ms)"
        "\<forall>m \<in> set ms. \<exists>r c. in_bounds r c \<and> good_move b s r c m"
    by blast
  have "\<forall>m \<in> set ms. move_score b m = Inr (dest_value b m)"
  proof
    fix m assume "m \<in> set ms"
    with ms(2) obtain r c where g: "good_move b s r c m" by blast
    obtain r1 c1 r2 c2 where m: "m = (r1, c1, r2, c2)" by (cases m)
    from g have "in_bounds r2 c2" unfolding m good_move_def by simp
    with wf v show "move_score b m = Inr (dest_value b m)" unfolding m by (rule move_score_valid)
  qed
  with ms(1) show ?thesis by blast
qed

lemma dest_value_bounds: "0 \<le> dest_value b m \<and> dest_value b m \<le> 9"
  unfolding dest_value_def using piece_value_bounds
  by (auto split: prod.splits sum.splits)

text \<open>
  Claim C3. The values \<^verbatim>\<open>VALUES\<close> gives the twelve piece letters are King 0, Queen 9, Rook
  5, Bishop 3, Knight 3, Pawn 1. On an 8 by 8 board of those letters, for every side and
  every outcome \<open>rnd\<close> of the random choice: the score of each generated move is the value
  of the piece on its destination before the move, 0 on an empty destination and 0 on a
  king; and when there is a move, \<^verbatim>\<open>ai_choose_move\<close> returns one of the generated moves
  whose value no generated move exceeds, so a move of value 9 whenever one is generated.
\<close>

theorem ai_choose_move_maximal:
  assumes wf: "wf_board b" and v: "valid_board b"
  shows "map values_lookup ''KQRBNPkqrbnp'' = map Inr [0, 9, 5, 3, 3, 1, 0, 9, 5, 3, 3, 1] \<and>
         (\<exists>ms. generate_moves b s = Some (Inr ms) \<and>
            (\<forall>m \<in> set ms. move_score b m = Inr (dest_value b m)) \<and>
            (\<forall>(r1, c1, r2, c2) \<in> set ms.
               cell_at b r2 c2 = Inr (CHR ''.'') \<or> cell_at b r2 c2 = Inr (CHR ''K'') \<or>
               cell_at b r2 c2 = Inr (CHR ''k'') \<longrightarrow> move_score b (r1, c1, r2, c2) = Inr 0) \<and>
            (ms \<noteq> [] \<longrightarrow>
               (\<exists>m. ai_choose_move b s rnd = Some (Inr (Some m)) \<and> m \<in> set ms \<and>
                    (\<forall>m' \<in> set ms. dest_value b m' \<le> dest_value b m) \<and>
                    ((\<exists>m' \<in> set ms. dest_value b m' = 9) \<longrightarrow> dest_value b m = 9))))"
proof -
  from generate_moves_scores [OF wf v, of s] obtain ms where
    ms: "generate_moves b s = Some (Inr ms)"
        "\<forall>m \<in> set ms. move_score b m = Inr (dest_value b m)"
    by blast
  have zero: "\<forall>(r1, c1, r2, c2) \<in> set ms.
               cell_at b r2 c2 = Inr (CHR ''.'') \<or> cell_at b r2 c2 = Inr (CHR ''K'') \<or>
               cell_at b r2 c2 = Inr (CHR ''k'') \<longrightarrow> move_score b (r1, c1, r2, c2) = Inr 0"
    using ms(2) by (auto simp: dest_value_def piece_value_def)
  have choice: "ms \<noteq> [] \<longrightarrow>
               (\<exists>m. ai_choose_move b s rnd = Some (Inr (Some m)) \<and> m \<in> set ms \<and>
                    (\<forall>m' \<in> set ms. dest_value b m' \<le> dest_value b m) \<and>
                    ((\<exists>m' \<in> set ms. dest_value b m' = 9) \<longrightarrow> dest_value b m = 9))"
  proof
    assume ne: "ms \<noteq> []"
    have "\<And>m. m \<in> set ms \<Longrightarrow> move_score b m = Inr (dest_value b m) \<and> 0 \<le> dest_value b m"
      using ms(2) dest_value_bounds by blast
    from best_loop_max [where f = "dest_value b", OF this ne]
    obtain bm bs where loop: "for_loop ms (best_step b) ([], - 999) = Inr (bm, bs)"
      and bm: "bm \<noteq> []" "set bm \<subseteq> set ms" "\<forall>m \<in> set bm. dest_value b m = bs"
        "\<forall>m \<in> set ms. dest_value b m \<le> bs"
      by blast
    from random_choice_nonempty [OF bm(1), of rnd] obtain m where
      m: "random_choice rnd bm = Inr m" "m \<in> set bm" by blast
    have ai: "ai_choose_move b s rnd = Some (Inr (Some m))"
      unfolding ai_choose_move_def by (simp add: ms(1) ne loop bm(1) m(1))
    from m(2) bm(3) have val: "dest_value b m = bs" by blast
    have max: "\<forall>m' \<in> set ms. dest_value b m' \<le> dest_value b m" unfolding val by (rule bm(4))
    have "(\<exists>m' \<in> set ms. dest_value b m' = 9) \<longrightarrow> dest_value b m = 9"
    proof
      assume "\<exists>m' \<in> set ms. dest_value b m' = 9"
      then obtain m' where "m' \<in> set ms" "dest_value b m' = 9" by blast
      with max have "9 \<le> dest_value b m" by fastforce
      with dest_value_bounds [of b m] show "dest_value b m = 9" by linarith
    qed
    with ai m(2) bm(2) max
    show "\<exists>m. ai_choose_move b s rnd = Some (Inr (Some m)) \<and> m \<in> set ms \<and>
                    (\<forall>m' \<in> set ms. dest_value b m' \<le> dest_value b m) \<and>
                    ((\<exists>m' \<in> set ms. dest_value b m' = 9) \<longrightarrow> dest_value b m = 9)"
      by blast
  qed
  from values_lookup_table ms zero choice show ?thesis by blast
qed

lemma queen_or_pawn_moves:
  "generate_moves [''q.......'', ''........'', ''........'', ''........'',
                   ''........'', ''........'', ''........'', ''R......p''] (CHR ''w'') =
     Some (Inr [(7, 0, 6, 0), (7, 0, 5, 0), (7, 0, 4, 0), (7, 0, 3, 0), (7, 0, 2, 0),
                (7, 0, 1, 0), (7, 0, 0, 0), (7, 0, 7, 1), (7, 0, 7, 2), (7, 0, 7, 3),
                (7, 0, 7, 4), (7, 0, 7, 5), (7, 0, 7, 6), (7, 0, 7, 7)])"
  by code_simp

lemma queen_or_pawn_choice:
  "ai_choose_move [''q.......'', ''........'', ''........'', ''........'',
                   ''........'', ''........'', ''........'', ''R......p''] (CHR ''w'') 5 =
     Some (Inr (Some (7, 0, 0, 0)))"
  by code_simp

text \<open>
  An instance: a White rook that can take a queen on \<open>(0, 0)\<close> or a pawn on \<open>(7, 7)\<close>
  takes the queen.
\<close>

theorem ai_choose_move_maximal_witness:
  "wf_board [''q.......'', ''........'', ''........'', ''........'',
             ''........'', ''........'', ''........'', ''R......p''] \<and>
   valid_board [''q.......'', ''........'', ''........'', ''........'',
                ''........'', ''........'', ''........'', ''R......p''] \<and>
   ai_choose_move [''q.......'', ''........'', ''........'', ''........'',
                   ''........'', ''........'', ''........'', ''R......p''] (CHR ''w'') 5 =
     Some (Inr (Some (7, 0, 0, 0))) \<and>
   dest_value [''q.......'', ''........'', ''........'', ''........'',
               ''........'', ''........'', ''........'', ''R......p''] (7, 0, 7, 7) = 1 \<and>
   dest_value [''q.......'', ''........'', ''........'', ''........'',
               ''........'', ''........'', ''........'', ''R......p''] (7, 0, 0, 0) = 9"
proof -
  let ?B = "[''q.......'', ''........'', ''........'', ''........'',
             ''........'', ''........'', ''........'', ''R......p'']"
  have wf: "wf_board ?B" by code_simp
  have v: "valid_board ?B" by code_simp
  have p: "dest_value ?B (7, 0, 7, 7) = 1" by code_simp
  have q: "dest_value ?B (7, 0, 0, 0) = 9" by code_simp
  from ai_choose_move_maximal [OF wf v, of "CHR ''w''" 5] obtain ms where
    ms: "generate_moves ?B (CHR ''w'') = Some (Inr ms)"
    and ch: "ms \<noteq> [] \<longrightarrow>
               (\<exists>m. ai_choose_move ?B (CHR ''w'') 5 = Some (Inr (Some m)) \<and> m \<in> set ms \<and>
                    (\<forall>m' \<in> set ms. dest_value ?B m' \<le> dest_value ?B m) \<and>
                    ((\<exists>m' \<in> set ms. dest_value ?B m' = 9) \<longrightarrow> dest_value ?B m = 9))"
    by blast
  from ms have mem: "(7, 0, 0, 0) \<in> set ms" "ms \<noteq> []" unfolding queen_or_pawn_moves by auto
  with ch q obtain m where m: "ai_choose_move ?B (CHR ''w'') 5 = Some (Inr (Some m))"
    "dest_value ?B m = 9" by blast
  from m(1) have "m = (7, 0, 0, 0)" unfolding queen_or_pawn_choice by simp
  with m wf v p show ?thesis by simp
qed

lemma ai_choose_move_returns:
  assumes wf: "wf_board b" and v: "valid_board b"
  shows "\<exists>ms res. generate_moves b s = Some (Inr ms) \<and> ai_choose_move b s rnd = Some (Inr res)"
proof -
  from generate_moves_scores [OF wf v, of s] obtain ms where
    ms: "generate_moves b s = Some (Inr ms)"
        "\<forall>m \<in> set ms. move_score b m = Inr (dest_value b m)"
    by blast
  show ?thesis
  proof (cases "ms = []")
    case True
    with ms(1) have "ai_choose_move b s rnd = Some (Inr None)" by (simp add: ai_choose_move_def)
    with ms(1) show ?thesis by blast
  next
    case False
    have "\<And>m. m \<in> set ms \<Longrightarrow> move_score b m = Inr (dest_value b m) \<and> 0 \<le> dest_value b m"
      using ms(2) dest_value_bounds by blast
    from best_loop_max [where f = "dest_value b", OF this False]
    obtain bm bs where loop: "for_loop ms (best_step b) ([], - 999) = Inr (bm, bs)"
      and bm: "bm \<noteq> []" by blast
    from random_choice_nonempty [OF bm, of rnd] obtain m where
      m: "random_choice rnd bm = Inr m" by blast
    have "ai_choose_move b s rnd = Some (Inr (Some m))"
      unfolding ai_choose_move_def by (simp add: ms(1) False loop bm m)
    with ms(1) show ?thesis by blast
  qed
qed

text \<open>
  Claim C8. For every board, side and outcome of the random choice, \<^verbatim>\<open>ai_choose_move\<close>
  returns \<^verbatim>\<open>None\<close> exactly when \<^verbatim>\<open>generate_moves\<close> returns the empty list, and a move it
  returns is an element of the list \<^verbatim>\<open>generate_moves\<close> returns. On an 8 by 8 board of
  piece letters both calls return.
\<close>

theorem ai_choose_move_contract:
  "(ai_choose_move b s rnd = Some (Inr None) \<longleftrightarrow> generate_moves b s = Some (Inr [])) \<and>
   (\<forall>m. ai_choose_move b s rnd = Some (Inr (Some m)) \<longrightarrow>
        (\<exists>ms. generate_moves b s = Some (Inr ms) \<and> m \<in> set ms)) \<and>
   (wf_board b \<and> valid_board b \<longrightarrow>
      (\<exists>ms res. generate_moves b s = Some (Inr ms) \<and> ai_choose_move b s rnd = Some (Inr res)))"
  using ai_choose_move_none [of b s rnd] ai_choose_move_member [of b s rnd]
    ai_choose_move_returns [of b s rnd]
  by blast

lemma initial_black_choice:
  "ai_choose_move new_board (CHR ''b'') 0 = Some (Inr (Some (0, 1, 2, 2)))"
  by code_simp

lemma no_black_piece_choice:
  "ai_choose_move [''PPP.....'', ''PKP.....'', ''PPP.....'', ''........'',
                   ''........'', ''........'', ''........'', ''........''] (CHR ''b'') 0 =
     Some (Inr None)"
  by code_simp

text \<open>
  Instances: Black has no piece and the answer is \<^verbatim>\<open>None\<close>; on the initial board the
  draw 0 gives Black the knight move from \<open>(0, 1)\<close> to \<open>(2, 2)\<close>, the first of its list.
\<close>

theorem ai_choose_move_contract_witness:
  "ai_choose_move [''PPP.....'', ''PKP.....'', ''PPP.....'', ''........'',
                   ''........'', ''........'', ''........'', ''........''] (CHR ''b'') 0 =
     Some (Inr None) \<and>
   generate_moves [''PPP.....'', ''PKP.....'', ''PPP.....'', ''........'',
                   ''........'', ''........'', ''........'', ''........''] (CHR ''b'') =
     Some (Inr []) \<and>
   wf_board new_board \<and> valid_board new_board \<and>
   ai_choose_move new_board (CHR ''b'') 0 = Some (Inr (Some (0, 1, 2, 2))) \<and>
   (\<exists>ms. generate_moves new_board (CHR ''b'') = Some (Inr ms) \<and> (0, 1, 2, 2) \<in> set ms)"
proof -
  let ?R = "[''PPP.....'', ''PKP.....'', ''PPP.....'', ''........'',
             ''........'', ''........'', ''........'', ''........'']"
  have wf: "wf_board new_board" by code_simp
  have v: "valid_board new_board" by code_simp
  from ai_choose_move_contract [of ?R "CHR ''b''" 0] no_black_piece_choice
  have g: "generate_moves ?R (CHR ''b'') = Some (Inr [])" by blast
  from ai_choose_move_contract [of new_board "CHR ''b''" 0] initial_black_choice
  have "\<exists>ms. generate_moves new_board (CHR ''b'') = Some (Inr ms) \<and> (0, 1, 2, 2) \<in> set ms"
    by blast
  with g wf v no_black_piece_choice initial_black_choice show ?thesis by blast
qed

subsection \<open>No mutation of the board that is passed in\<close>

lemma norm_index_length:
  "length xs = length ys \<Longrightarrow> norm_index xs i = norm_index ys i"
  by (simp add: norm_index_def)

lemma norm_index_bound: "norm_index xs i = Inr k \<Longrightarrow> k < length xs"
  by (auto simp: norm_index_def split: if_splits)

lemma board_of_rows:
  assumes "board_of h a = Some b"
  shows "\<exists>rows. h_refs h a = Inr rows \<and> length rows = length b \<and>
           (\<forall>k < length rows. h_chars h (rows ! k) = Inr (b ! k) \<and> rows ! k < length h \<and>
                               h ! (rows ! k) = Chars (b ! k))"
proof -
  from assms obtain rows where rows: "h_refs h a = Inr rows"
    and all: "list_all (\<lambda>x. case h_chars h x of Inl e \<Rightarrow> False | Inr cs \<Rightarrow> True) rows"
    and b: "b = map (\<lambda>x. case h_chars h x of Inl e \<Rightarrow> [] | Inr cs \<Rightarrow> cs) rows"
    unfolding board_of_def by (auto split: sum.splits if_splits)
  have "\<forall>k < length rows. h_chars h (rows ! k) = Inr (b ! k) \<and> rows ! k < length h \<and>
                               h ! (rows ! k) = Chars (b ! k)"
  proof (intro allI impI)
    fix k assume k: "k < length rows"
    with all have "case h_chars h (rows ! k) of Inl e \<Rightarrow> False | Inr cs \<Rightarrow> True"
      by (simp add: list_all_length)
    then obtain cs where cs: "h_chars h (rows ! k) = Inr cs" by (auto split: sum.splits)
    with k b have "b ! k = cs" by simp
    with cs show "h_chars h (rows ! k) = Inr (b ! k) \<and> rows ! k < length h \<and>
                               h ! (rows ! k) = Chars (b ! k)"
      by (auto simp: h_chars_def split: if_splits obj.splits)
  qed
  with rows b show ?thesis by auto
qed

lemma h_cell_at_board:
  assumes "board_of h a = Some b"
  shows "h_cell_at h a r c = cell_at b r c"
proof -
  from board_of_rows [OF assms] obtain rows where rows: "h_refs h a = Inr rows"
    "length rows = length b"
    "\<forall>k < length rows. h_chars h (rows ! k) = Inr (b ! k) \<and> rows ! k < length h \<and>
                               h ! (rows ! k) = Chars (b ! k)"
    by blast
  have ni: "norm_index rows r = norm_index b r" using rows(2) by (rule norm_index_length)
  show ?thesis
  proof (cases "norm_index b r")
    case (Inl e)
    then show ?thesis by (simp add: h_cell_at_def cell_at_def getitem_def rows(1) ni)
  next
    case (Inr k)
    with ni have "k < length rows" by (simp add: norm_index_bound)
    with rows(3) have "h_chars h (rows ! k) = Inr (b ! k)" by blast
    with Inr show ?thesis by (simp add: h_cell_at_def cell_at_def getitem_def rows(1) ni)
  qed
qed

lemma h_chars_append: "h_chars h x = Inr cs \<Longrightarrow> h_chars (h @ ext) x = Inr cs"
  by (auto simp: h_chars_def nth_append split: if_splits)

lemma h_refs_append: "h_refs h x = Inr rs \<Longrightarrow> h_refs (h @ ext) x = Inr rs"
  by (auto simp: h_refs_def nth_append split: if_splits)

lemma copy_rows_ok:
  assumes "\<forall>x \<in> set rows. \<exists>cs. h_chars h x = Inr cs"
  shows "copy_rows h rows =
           (Inr [length h ..< length h + length rows], h @ map (\<lambda>x. h ! x) rows)"
  using assms
proof (induction rows arbitrary: h)
  case Nil
  show ?case by simp
next
  case (Cons row rows)
  from Cons.prems obtain cs where cs: "h_chars h row = Inr cs" by auto
  then have hr: "h ! row = Chars cs" and lt: "row < length h"
    by (auto simp: h_chars_def split: if_splits obj.splits)
  let ?h1 = "h @ [Chars cs]"
  have "\<forall>x \<in> set rows. \<exists>cs'. h_chars ?h1 x = Inr cs'"
    using Cons.prems h_chars_append by fastforce
  from Cons.IH [OF this]
  have rest: "copy_rows ?h1 rows =
      (Inr [length ?h1 ..< length ?h1 + length rows], ?h1 @ map (\<lambda>x. ?h1 ! x) rows)" .
  have old: "map (\<lambda>x. ?h1 ! x) rows = map (\<lambda>x. h ! x) rows"
  proof (rule map_cong [OF refl])
    fix x assume "x \<in> set rows"
    with Cons.prems obtain cs' where "h_chars h x = Inr cs'" by auto
    then have "x < length h" by (auto simp: h_chars_def split: if_splits)
    then show "?h1 ! x = h ! x" by (simp add: nth_append)
  qed
  have idx: "length h # [length ?h1 ..< length ?h1 + length rows] =
             [length h ..< length h + length (row # rows)]"
  proof -
    have "length h < length h + Suc (length rows)" by simp
    then have "[length h ..< length h + Suc (length rows)] =
               length h # [Suc (length h) ..< length h + Suc (length rows)]"
      by (rule upt_conv_Cons)
    then show ?thesis by simp
  qed
  show ?case
    using idx by (simp add: cs h_alloc_def rest old hr)
qed

lemma copy_rows_board:
  assumes "board_of h a = Some b" "h_refs h a = Inr rows"
  shows "copy_rows h rows = (Inr [length h ..< length h + length b], h @ map Chars b)"
proof -
  from board_of_rows [OF assms(1)] assms(2) have len: "length rows = length b"
    and each: "\<forall>k < length rows. h_chars h (rows ! k) = Inr (b ! k) \<and> rows ! k < length h \<and>
                               h ! (rows ! k) = Chars (b ! k)"
    by auto
  have "\<forall>x \<in> set rows. \<exists>cs. h_chars h x = Inr cs"
    using each by (auto simp: in_set_conv_nth)
  from copy_rows_ok [OF this]
  have c: "copy_rows h rows =
           (Inr [length h ..< length h + length rows], h @ map (\<lambda>x. h ! x) rows)" .
  have "map (\<lambda>x. h ! x) rows = map Chars b"
    using len each by (auto simp: list_eq_iff_nth_eq)
  with c len show ?thesis by simp
qed

lemma placed_refs:
  "h_refs (placed h b) (length h + length b) = Inr [length h ..< length h + length b]"
  by (simp add: h_refs_def placed_def nth_append)

lemma placed_chars:
  "k < length b \<Longrightarrow> h_chars (placed h b) (length h + k) = Inr (b ! k)"
  by (simp add: h_chars_def placed_def nth_append)

lemma placed_update:
  "k < length b \<Longrightarrow> (placed h b)[length h + k := Chars cs] = placed h (b[k := cs])"
  by (simp add: placed_def list_update_append map_update)

lemma set_cell_length: "set_cell b r c v = Inr b' \<Longrightarrow> length b' = length b"
  by (auto simp: set_cell_def split: sum.splits)

lemma h_set_cell_placed:
  "h_set_cell (placed h b) (length h + length b) r c v =
     (case set_cell b r c v of Inl e \<Rightarrow> Inl e | Inr b' \<Rightarrow> Inr (placed h b'))"
proof -
  let ?rows = "[length h ..< length h + length b]"
  have ni: "norm_index ?rows r = norm_index b r" by (rule norm_index_length) simp
  show ?thesis
  proof (cases "norm_index b r")
    case (Inl e)
    then show ?thesis
      by (simp add: h_set_cell_def set_cell_def placed_refs getitem_def ni)
  next
    case (Inr k)
    then have k: "k < length b" by (rule norm_index_bound)
    then have row: "getitem ?rows r = Inr (length h + k)"
      by (simp add: getitem_def ni Inr)
    show ?thesis
    proof (cases "setitem (b ! k) c v")
      case (Inl e)
      then show ?thesis
        using Inr by (simp add: h_set_cell_def set_cell_def placed_refs row placed_chars [OF k])
    next
      case cs: (Inr cs')
      then show ?thesis
        using Inr
        by (simp add: h_set_cell_def set_cell_def placed_refs row placed_chars [OF k]
            placed_update [OF k])
    qed
  qed
qed

lemma placed_rows_chars:
  "k < length b \<Longrightarrow> h_chars (placed h b) ([length h ..< length h + length b] ! k) = Inr (b ! k)"
  by (simp add: placed_chars)

lemma placed_rows_all:
  "list_all (\<lambda>x. case h_chars (placed h b) x of Inl e \<Rightarrow> False | Inr cs \<Rightarrow> True)
     [length h ..< length h + length b]"
  unfolding list_all_length
proof (intro allI impI)
  fix k assume "k < length [length h ..< length h + length b]"
  then have "k < length b" by simp
  from placed_rows_chars [OF this]
  show "case h_chars (placed h b) ([length h ..< length h + length b] ! k) of
          Inl e \<Rightarrow> False | Inr cs \<Rightarrow> True"
    by (simp only: sum.case)
qed

lemma placed_rows_map:
  "map (\<lambda>x. case h_chars (placed h b) x of Inl e \<Rightarrow> [] | Inr cs \<Rightarrow> cs)
     [length h ..< length h + length b] = b"
proof (rule nth_equalityI)
  show "length (map (\<lambda>x. case h_chars (placed h b) x of Inl e \<Rightarrow> [] | Inr cs \<Rightarrow> cs)
     [length h ..< length h + length b]) = length b" by simp
next
  fix k assume "k < length (map (\<lambda>x. case h_chars (placed h b) x of Inl e \<Rightarrow> [] | Inr cs \<Rightarrow> cs)
     [length h ..< length h + length b])"
  then have k: "k < length b" by simp
  then have "k < length [length h ..< length h + length b]" by simp
  then have "map (\<lambda>x. case h_chars (placed h b) x of Inl e \<Rightarrow> [] | Inr cs \<Rightarrow> cs)
     [length h ..< length h + length b] ! k =
     (case h_chars (placed h b) ([length h ..< length h + length b] ! k) of
        Inl e \<Rightarrow> [] | Inr cs \<Rightarrow> cs)"
    by (rule nth_map)
  also have "\<dots> = b ! k" by (simp only: placed_rows_chars [OF k] sum.case)
  finally show "map (\<lambda>x. case h_chars (placed h b) x of Inl e \<Rightarrow> [] | Inr cs \<Rightarrow> cs)
     [length h ..< length h + length b] ! k = b ! k" .
qed

lemma board_of_placed: "board_of (placed h b) (length h + length b) = Some b"
  unfolding board_of_def
  by (simp only: placed_refs sum.case placed_rows_all placed_rows_map if_True)

lemma board_of_append:
  assumes "board_of h a = Some b"
  shows "board_of (h @ ext) a = Some b"
proof -
  from assms obtain rows where rows: "h_refs h a = Inr rows"
    and all: "list_all (\<lambda>x. case h_chars h x of Inl e \<Rightarrow> False | Inr cs \<Rightarrow> True) rows"
    and b: "b = map (\<lambda>x. case h_chars h x of Inl e \<Rightarrow> [] | Inr cs \<Rightarrow> cs) rows"
    unfolding board_of_def by (auto split: sum.splits if_splits)
  have same: "\<And>x. x \<in> set rows \<Longrightarrow> h_chars (h @ ext) x = h_chars h x"
  proof -
    fix x assume "x \<in> set rows"
    with all have "case h_chars h x of Inl e \<Rightarrow> False | Inr cs \<Rightarrow> True"
      unfolding list_all_iff by blast
    then obtain cs where "h_chars h x = Inr cs" by (cases "h_chars h x") auto
    then show "h_chars (h @ ext) x = h_chars h x" by (simp add: h_chars_append)
  qed
  have all': "list_all (\<lambda>x. case h_chars (h @ ext) x of Inl e \<Rightarrow> False | Inr cs \<Rightarrow> True) rows"
    using all unfolding list_all_iff by (simp add: same)
  have "map (\<lambda>x. case h_chars (h @ ext) x of Inl e \<Rightarrow> [] | Inr cs \<Rightarrow> cs) rows = b"
    unfolding b by (rule map_cong [OF refl]) (simp add: same)
  with all' show ?thesis
    unfolding board_of_def by (simp add: h_refs_append [OF rows])
qed

lemma placed_extends: "\<exists>ext. placed h b = h @ ext"
  by (simp add: placed_def)

lemma apply_move_h_board:
  assumes bo: "board_of h a = Some b"
  shows "\<exists>ext. snd (apply_move_h h a m) = h @ ext \<and>
           (case apply_move b m of
              Inl e \<Rightarrow> fst (apply_move_h h a m) = Inl e
            | Inr b' \<Rightarrow> fst (apply_move_h h a m) = Inr (length h + length b) \<and>
                        h @ ext = placed h b')"
proof -
  obtain r1 c1 r2 c2 where m: "m = (r1, c1, r2, c2)" by (cases m)
  let ?nb = "length h + length b"
  from board_of_rows [OF bo] obtain rows where rows: "h_refs h a = Inr rows" by blast
  have copy: "copy_rows h rows = (Inr [length h ..< ?nb], h @ map Chars b)"
    using bo rows by (rule copy_rows_board)
  have alloc: "h_alloc (h @ map Chars b) (Refs [length h ..< ?nb]) = (?nb, placed h b)"
    by (simp add: h_alloc_def placed_def)
  have hs: "\<And>b' r c v. length b' = length b \<Longrightarrow>
              h_set_cell (placed h b') ?nb r c v =
                (case set_cell b' r c v of Inl e \<Rightarrow> Inl e | Inr b'' \<Rightarrow> Inr (placed h b''))"
    using h_set_cell_placed by metis
  define P1 where "P1 piece = (piece = CHR ''P'' \<and> r2 = 0)" for piece
  define P2 where "P2 piece = (piece = CHR ''p'' \<and> r2 = ROWS - 1)" for piece
  have pure: "apply_move b m =
     (case cell_at b r1 c1 of
           Inl e \<Rightarrow> Inl e
         | Inr piece \<Rightarrow>
             (case set_cell b r1 c1 (CHR ''.'') of
                Inl e \<Rightarrow> Inl e
              | Inr b1 \<Rightarrow>
                  (case set_cell b1 r2 c2 piece of
                     Inl e \<Rightarrow> Inl e
                   | Inr b2 \<Rightarrow>
                       (case (if P1 piece then set_cell b2 r2 c2 (CHR ''Q'') else Inr b2) of
                          Inl e \<Rightarrow> Inl e
                        | Inr b3 \<Rightarrow>
                            (if P2 piece then set_cell b3 r2 c2 (CHR ''q'') else Inr b3)))))"
    unfolding apply_move_def m P1_def P2_def Let_def by simp
  have heap: "apply_move_h h a m =
     (case cell_at b r1 c1 of
           Inl e \<Rightarrow> (Inl e, h)
         | Inr piece \<Rightarrow>
            (case h_set_cell (placed h b) ?nb r1 c1 (CHR ''.'') of
               Inl e \<Rightarrow> (Inl e, placed h b)
             | Inr h3 \<Rightarrow>
                 (case h_set_cell h3 ?nb r2 c2 piece of
                    Inl e \<Rightarrow> (Inl e, h3)
                  | Inr h4 \<Rightarrow>
                      (case (if P1 piece then h_set_cell h4 ?nb r2 c2 (CHR ''Q'') else Inr h4) of
                         Inl e \<Rightarrow> (Inl e, h4)
                       | Inr h5 \<Rightarrow>
                           (case (if P2 piece then h_set_cell h5 ?nb r2 c2 (CHR ''q'') else Inr h5) of
                              Inl e \<Rightarrow> (Inl e, h5)
                            | Inr h6 \<Rightarrow> (Inr ?nb, h6))))))"
    unfolding apply_move_h_def m P1_def P2_def
    by (simp add: h_cell_at_board [OF bo] rows copy alloc split: sum.splits)
  show ?thesis
  proof (cases "cell_at b r1 c1")
    case (Inl e)
    then show ?thesis by (simp add: pure heap)
  next
    case piece: (Inr piece)
    show ?thesis
    proof (cases "set_cell b r1 c1 (CHR ''.'')")
      case (Inl e)
      then show ?thesis using placed_extends [of h b] by (simp add: pure heap piece hs)
    next
      case b1: (Inr b1)
      then have l1: "length b1 = length b" by (rule set_cell_length)
      show ?thesis
      proof (cases "set_cell b1 r2 c2 piece")
        case (Inl e)
        then show ?thesis
          using placed_extends [of h b1] by (simp add: pure heap piece hs b1 l1)
      next
        case b2: (Inr b2)
        then have l2: "length b2 = length b" using l1 by (simp add: set_cell_length)
        show ?thesis
        proof (cases "if P1 piece then set_cell b2 r2 c2 (CHR ''Q'') else Inr b2")
          case (Inl e)
          then have q: "P1 piece" "set_cell b2 r2 c2 (CHR ''Q'') = Inl e"
            by (auto split: if_splits)
          then show ?thesis
            using placed_extends [of h b2] by (simp add: pure heap piece hs b1 l1 b2 l2)
        next
          case b3: (Inr b3)
          then have l3: "length b3 = length b" using l2
            by (auto split: if_splits simp: set_cell_length)
          have h5: "(if P1 piece then h_set_cell (placed h b2) ?nb r2 c2 (CHR ''Q'')
                     else Inr (placed h b2)) = Inr (placed h b3)"
            using b3 by (auto split: if_splits simp: hs l2)
          show ?thesis
          proof (cases "if P2 piece then set_cell b3 r2 c2 (CHR ''q'') else Inr b3")
            case (Inl e)
            then have q: "P2 piece" "set_cell b3 r2 c2 (CHR ''q'') = Inl e"
              by (auto split: if_splits)
            then show ?thesis
              using placed_extends [of h b3]
              by (simp add: pure heap piece hs b1 l1 b2 l2 b3 h5 l3)
          next
            case b4: (Inr b4)
            have h6: "(if P2 piece then h_set_cell (placed h b3) ?nb r2 c2 (CHR ''q'')
                       else Inr (placed h b3)) = Inr (placed h b4)"
              using b4 by (auto split: if_splits simp: hs l3)
            from placed_extends [of h b4] obtain ext where ext: "placed h b4 = h @ ext" ..
            have "snd (apply_move_h h a m) = placed h b4"
              "fst (apply_move_h h a m) = Inr ?nb" "apply_move b m = Inr b4"
              by (simp_all add: pure heap piece hs b1 l1 b2 l2 b3 h5 b4 h6)
            with ext show ?thesis by (intro exI [of _ ext]) simp
          qed
        qed
      qed
    qed
  qed
qed

text \<open>
  Claim C9. Let the address \<open>a\<close> hold a board \<open>b\<close> in the store \<open>h\<close>. \<^verbatim>\<open>generate_moves\<close>
  returns the store unchanged. \<^verbatim>\<open>apply_move\<close> leaves every object of \<open>h\<close> as it was, so
  \<open>a\<close> still holds \<open>b\<close> after the call; and when it returns, the board it returns is a new
  object, at an address different from \<open>a\<close>, whose rows are new objects too, and which
  holds the board \<^verbatim>\<open>apply_move\<close> computes as a value.
\<close>

theorem no_input_mutation:
  assumes bo: "board_of h a = Some b"
  shows "generate_moves_h h a s = (generate_moves b s, h) \<and>
         (\<exists>res h'. apply_move_h h a m = (res, h') \<and>
            length h \<le> length h' \<and> (\<forall>x < length h. h' ! x = h ! x) \<and>
            board_of h' a = Some b \<and>
            (case apply_move b m of
               Inl e \<Rightarrow> res = Inl e
             | Inr b' \<Rightarrow>
                 (\<exists>a' rows. res = Inr a' \<and> a' \<noteq> a \<and> length h \<le> a' \<and>
                    board_of h' a' = Some b' \<and>
                    h_refs h' a' = Inr rows \<and> (\<forall>x \<in> set rows. length h \<le> x))))"
proof
  show "generate_moves_h h a s = (generate_moves b s, h)"
    by (simp add: generate_moves_h_def bo)
next
  from apply_move_h_board [OF bo, of m] obtain ext where
    ext: "snd (apply_move_h h a m) = h @ ext"
    and res: "case apply_move b m of
              Inl e \<Rightarrow> fst (apply_move_h h a m) = Inl e
            | Inr b' \<Rightarrow> fst (apply_move_h h a m) = Inr (length h + length b) \<and>
                        h @ ext = placed h b'"
    by blast
  let ?res = "fst (apply_move_h h a m)"
  have pair: "apply_move_h h a m = (?res, h @ ext)" using ext by (simp add: prod_eq_iff)
  have frame: "\<forall>x < length h. (h @ ext) ! x = h ! x" by (simp add: nth_append)
  have same: "board_of (h @ ext) a = Some b" using bo by (rule board_of_append)
  from board_of_rows [OF bo] have "a < length h"
    by (auto simp: h_refs_def split: if_splits)
  have fresh: "case apply_move b m of
               Inl e \<Rightarrow> ?res = Inl e
             | Inr b' \<Rightarrow>
                 (\<exists>a' rows. ?res = Inr a' \<and> a' \<noteq> a \<and> length h \<le> a' \<and>
                    board_of (h @ ext) a' = Some b' \<and>
                    h_refs (h @ ext) a' = Inr rows \<and> (\<forall>x \<in> set rows. length h \<le> x))"
  proof (cases "apply_move b m")
    case (Inl e)
    with res show ?thesis by simp
  next
    case (Inr b')
    with res have r: "?res = Inr (length h + length b)" and p: "h @ ext = placed h b'" by simp_all
    obtain r1 c1 r2 c2 where m: "m = (r1, c1, r2, c2)" by (cases m)
    have len: "length b' = length b"
      using Inr unfolding m apply_move_def
      by (auto split: sum.splits if_splits dest!: set_cell_length)
    have "board_of (placed h b') (length h + length b) = Some b'"
      using board_of_placed [of h b'] by (simp add: len)
    moreover have "h_refs (placed h b') (length h + length b) = Inr [length h ..< length h + length b]"
      using placed_refs [of h b'] by (simp add: len)
    moreover have "\<forall>x \<in> set [length h ..< length h + length b]. length h \<le> x" by simp
    moreover have "length h + length b \<noteq> a" using \<open>a < length h\<close> by simp
    ultimately show ?thesis unfolding Inr p using r by simp
  qed
  from pair frame same fresh
  show "\<exists>res h'. apply_move_h h a m = (res, h') \<and>
            length h \<le> length h' \<and> (\<forall>x < length h. h' ! x = h ! x) \<and>
            board_of h' a = Some b \<and>
            (case apply_move b m of
               Inl e \<Rightarrow> res = Inl e
             | Inr b' \<Rightarrow>
                 (\<exists>a' rows. res = Inr a' \<and> a' \<noteq> a \<and> length h \<le> a' \<and>
                    board_of h' a' = Some b' \<and>
                    h_refs h' a' = Inr rows \<and> (\<forall>x \<in> set rows. length h \<le> x)))"
    by (intro exI [of _ ?res] exI [of _ "h @ ext"]) simp
qed

text \<open>
  An instance: the initial board at address 8 with its rows at 0 to 7. After the move
  from \<open>(6, 4)\<close> to \<open>(4, 4)\<close> the new board is at address 17 and address 8 still holds
  the initial board.
\<close>

theorem no_input_mutation_witness:
  "board_of [Chars ''rnbqkbnr'', Chars ''pppppppp'', Chars ''........'', Chars ''........'',
             Chars ''........'', Chars ''........'', Chars ''PPPPPPPP'', Chars ''RNBQKBNR'',
             Refs [0, 1, 2, 3, 4, 5, 6, 7]] 8 = Some new_board \<and>
   snd (generate_moves_h
          [Chars ''rnbqkbnr'', Chars ''pppppppp'', Chars ''........'', Chars ''........'',
           Chars ''........'', Chars ''........'', Chars ''PPPPPPPP'', Chars ''RNBQKBNR'',
           Refs [0, 1, 2, 3, 4, 5, 6, 7]] 8 (CHR ''w'')) =
     [Chars ''rnbqkbnr'', Chars ''pppppppp'', Chars ''........'', Chars ''........'',
      Chars ''........'', Chars ''........'', Chars ''PPPPPPPP'', Chars ''RNBQKBNR'',
      Refs [0, 1, 2, 3, 4, 5, 6, 7]] \<and>
   (\<exists>h'. apply_move_h
          [Chars ''rnbqkbnr'', Chars ''pppppppp'', Chars ''........'', Chars ''........'',
           Chars ''........'', Chars ''........'', Chars ''PPPPPPPP'', Chars ''RNBQKBNR'',
           Refs [0, 1, 2, 3, 4, 5, 6, 7]] 8 (6, 4, 4, 4) = (Inr 17, h') \<and>
         board_of h' 8 = Some new_board \<and>
         board_of h' 17 = Some [''rnbqkbnr'', ''pppppppp'', ''........'', ''........'',
                               ''....P...'', ''........'', ''PPPP.PPP'', ''RNBQKBNR''])"
proof -
  let ?h = "[Chars ''rnbqkbnr'', Chars ''pppppppp'', Chars ''........'', Chars ''........'',
             Chars ''........'', Chars ''........'', Chars ''PPPPPPPP'', Chars ''RNBQKBNR'',
             Refs [0, 1, 2, 3, 4, 5, 6, 7]]"
  have bo: "board_of ?h 8 = Some new_board" by code_simp
  have a: "fst (apply_move_h ?h 8 (6, 4, 4, 4)) = Inr 17" by code_simp
  from no_input_mutation [OF bo, of "CHR ''w''" "(6, 4, 4, 4)"]
  have g: "generate_moves_h ?h 8 (CHR ''w'') = (generate_moves new_board (CHR ''w''), ?h)"
    and "\<exists>res h'. apply_move_h ?h 8 (6, 4, 4, 4) = (res, h') \<and>
            board_of h' 8 = Some new_board \<and>
            (\<exists>a'. res = Inr a' \<and>
               board_of h' a' = Some [''rnbqkbnr'', ''pppppppp'', ''........'', ''........'',
                               ''....P...'', ''........'', ''PPPP.PPP'', ''RNBQKBNR''])"
    unfolding after_e4_board by auto
  then obtain res h' a' where r: "apply_move_h ?h 8 (6, 4, 4, 4) = (res, h')"
    "board_of h' 8 = Some new_board" "res = Inr a'"
    "board_of h' a' = Some [''rnbqkbnr'', ''pppppppp'', ''........'', ''........'',
                               ''....P...'', ''........'', ''PPPP.PPP'', ''RNBQKBNR'']"
    by blast
  from r(1,3) a have "a' = 17" by simp
  with r bo g show ?thesis by simp
qed

end
